theory Spec2Isabelle
  imports Main "HOL-Library.AList"
begin

section \<open>The scheduler (scheduler.js, class Scheduler)\<close>

text \<open>
  A JavaScript object used as a table is an association list: \<open>map_of\<close> reads a
  property, \<open>AList.update\<close> assigns one (in place when the key exists, appended
  otherwise) and \<open>AList.delete\<close> is the \<open>delete\<close> operator. Every method takes the
  scheduler's state and returns the exception it threw, if any, with the state it left
  behind. A leading underscore of a source name is written as a trailing prime, and
  \<open>exists\<close> is written \<open>exists_schedule\<close>.
\<close>

subsection \<open>Plain objects\<close>

text \<open>
  The tables are created as \<open>{}\<close>, so they inherit the properties of
  \<open>Object.prototype\<close>: the operator \<open>in\<close> is true for these names and reading one
  gives the inherited value (a function, or for \<open>__proto__\<close> the prototype object),
  which is truthy and has no method \<open>stop\<close>. An assignment is modelled as writing an
  own property for every name; for the one name \<open>__proto__\<close> JavaScript replaces the
  prototype instead, a write that \<open>add\<close> and \<open>update\<close> never reach, since \<open>in\<close> is
  true and the inherited entry is truthy for that name.
\<close>

definition Object_prototype :: "string list" where
  "Object_prototype =
     [''constructor'', ''__defineGetter__'', ''__defineSetter__'', ''hasOwnProperty'',
      ''__lookupGetter__'', ''__lookupSetter__'', ''isPrototypeOf'',
      ''propertyIsEnumerable'', ''toString'', ''valueOf'', ''__proto__'',
      ''toLocaleString'']"

definition has_property :: "(string \<times> 'a) list \<Rightarrow> string \<Rightarrow> bool" where
  "has_property obj k = (k \<in> fst ` set obj \<or> k \<in> set Object_prototype)"

text \<open>
  The order in which \<open>forEach\<close> visits the own keys of an object: the keys that are
  array indices first, in ascending numeric order, then the other keys in the order of
  their creation.
\<close>

definition is_digit :: "char \<Rightarrow> bool" where
  "is_digit c = ((48::int) \<le> of_char c \<and> of_char c \<le> (57::int))"

definition index_value :: "string \<Rightarrow> int" where
  "index_value k = foldl (\<lambda>a c. 10 * a + (of_char c - 48)) 0 k"

definition is_index :: "string \<Rightarrow> bool" where
  "is_index k =
     (k \<noteq> [] \<and> list_all is_digit k \<and> (k = ''0'' \<or> hd k \<noteq> CHR ''0'')
      \<and> index_value k < 4294967295)"

definition own_keys :: "(string \<times> 'a) list \<Rightarrow> string list" where
  "own_keys obj =
     sort_key index_value (filter is_index (map fst obj))
       @ filter (\<lambda>k. \<not> is_index k) (map fst obj)"

subsection \<open>Schedules, arguments and errors\<close>

record schedule =
  sid :: string
  cron :: string
  job :: string
  enabled :: bool

text \<open>
  What a caller may pass where the source says \<open>scheduleOrId\<close>: an id, a schedule
  object, or \<open>undefined\<close>/\<open>null\<close>.
\<close>

datatype scheduleOrId = ArgUndefined | ArgId string | ArgSchedule schedule

text \<open>
  The five subclasses of \<open>SchedulerError\<close>, each with the message its constructor
  builds; the \<open>TypeError\<close> the language raises when a property of \<open>undefined\<close> is read
  or something that is not a function is called; and the \<open>Error\<close> the constructor of
  \<open>CronJob\<close> throws for a pattern it cannot parse.
\<close>

datatype error =
  ScheduleOverride string
  | NoSuchSchedule string
  | ScheduleNotEnabled string
  | ScheduleAlreadyEnabled string
  | ScheduleJobNotFound string
  | TypeError
  | CronError

fun is_SchedulerError :: "error \<Rightarrow> bool" where
  "is_SchedulerError TypeError = False"
| "is_SchedulerError CronError = False"
| "is_SchedulerError _ = True"

text \<open>
  \<open>_resolveId = scheduleOrId => scheduleOrId.id || scheduleOrId\<close>. The result is only
  ever used as a property key or in a string concatenation, so it is given as the string
  it is coerced to: a schedule whose id is falsy (the empty string) resolves to the
  schedule object itself, whose string form is \<open>[object Object]\<close>; reading \<open>.id\<close> of
  \<open>undefined\<close> throws.
\<close>

fun resolveId' :: "scheduleOrId \<Rightarrow> error + string" where
  "resolveId' ArgUndefined = Inl TypeError"
| "resolveId' (ArgId i) = Inr i"
| "resolveId' (ArgSchedule s) = Inr (if sid s \<noteq> [] then sid s else ''[object Object]'')"

text \<open>The key a raw argument is coerced to when it indexes a table directly.\<close>

fun property_key :: "scheduleOrId \<Rightarrow> string" where
  "property_key ArgUndefined = ''undefined''"
| "property_key (ArgId i) = i"
| "property_key (ArgSchedule s) = ''[object Object]''"

definition new_ScheduleOverride :: "scheduleOrId \<Rightarrow> error" where
  "new_ScheduleOverride x =
     (case resolveId' x of
        Inl e \<Rightarrow> e
      | Inr i \<Rightarrow> ScheduleOverride (''Schedule ID '' @ i @ '' is already added''))"

definition new_NoSuchSchedule :: "scheduleOrId \<Rightarrow> error" where
  "new_NoSuchSchedule x =
     (case resolveId' x of
        Inl e \<Rightarrow> e
      | Inr i \<Rightarrow> NoSuchSchedule (''No schedule found for ID '' @ i))"

text \<open>
  The source closes the call to \<open>super\<close> before the last concatenation, so the message
  stops after the id.
\<close>

definition new_ScheduleNotEnabled :: "scheduleOrId \<Rightarrow> error" where
  "new_ScheduleNotEnabled x =
     (case resolveId' x of
        Inl e \<Rightarrow> e
      | Inr i \<Rightarrow> ScheduleNotEnabled (''Schedule '' @ i))"

text \<open>
  The guard of the \<open>catch\<close> block of \<open>remove\<close> is \<open>!exc instanceof SchedulerError\<close>.
  Unary \<open>!\<close> binds tighter than \<open>instanceof\<close>, so the left operand of \<open>instanceof\<close> is
  the boolean \<open>!exc\<close>, and a boolean is an instance of no class.
\<close>

datatype operand = ErrorObject error | Boolean bool

fun truthy :: "operand \<Rightarrow> bool" where
  "truthy (ErrorObject e) = True"
| "truthy (Boolean b) = b"

definition logical_not :: "operand \<Rightarrow> operand" where
  "logical_not v = Boolean (\<not> truthy v)"

fun instanceof_SchedulerError :: "operand \<Rightarrow> bool" where
  "instanceof_SchedulerError (ErrorObject e) = is_SchedulerError e"
| "instanceof_SchedulerError (Boolean b) = False"

subsection \<open>State\<close>

text \<open>
  A \<open>CronJob\<close> object: the pattern it was built with, the job id and schedule id its
  callback captured, and whether it has been started and not stopped. The objects live
  in a heap, in order of creation; a handle is an index into it.
\<close>

record cronjob =
  pattern :: string
  jobId :: string
  scheduleId :: string
  running :: bool

record scheduler =
  schedules :: "(string \<times> schedule) list"
  scheduleTable :: "(string \<times> bool) list"
  cronJobs :: "(string \<times> nat) list"
  heap :: "cronjob list"

definition empty_scheduler :: scheduler where
  "empty_scheduler = \<lparr>schedules = [], scheduleTable = [], cronJobs = [], heap = []\<rparr>"

definition stop :: "nat \<Rightarrow> cronjob list \<Rightarrow> cronjob list" where
  "stop h js = (if h < length js then js[h := (js ! h)\<lparr>running := False\<rparr>] else js)"

subsection \<open>Methods\<close>

text \<open>
  \<open>exists\<close> is \<open>id_ in this._schedules\<close>. \<open>isEnabled\<close> returns
  \<open>this._scheduleTable[id]\<close>, given here by its truthiness, which is all its callers
  use: the own entry when there is one, else the inherited value when the name has one,
  else \<open>undefined\<close>.
\<close>

definition exists_schedule :: "scheduler \<Rightarrow> scheduleOrId \<Rightarrow> error + bool" where
  "exists_schedule st x =
     (case resolveId' x of
        Inl e \<Rightarrow> Inl e
      | Inr i \<Rightarrow> Inr (has_property (schedules st) i))"

definition isEnabled :: "scheduler \<Rightarrow> scheduleOrId \<Rightarrow> error + bool" where
  "isEnabled st x =
     (case resolveId' x of
        Inl e \<Rightarrow> Inl e
      | Inr i \<Rightarrow>
          Inr (case map_of (scheduleTable st) i of
                 Some b \<Rightarrow> b
               | None \<Rightarrow> i \<in> set Object_prototype))"

text \<open>
  \<open>_enable\<close>: a new \<open>CronJob\<close> is built, stored under \<open>schedule.id\<close> (not under the
  resolved id), started, and the entry is marked enabled. A handle already stored under
  that key is overwritten; its timer is not stopped. The constructor, which is not part
  of these sources, throws for a pattern it cannot parse; \<open>parses\<close> says which patterns
  it accepts, and \<open>started\<close> is the state after the three statements that follow it.
\<close>

definition started :: "scheduler \<Rightarrow> schedule \<Rightarrow> scheduler" where
  "started st s =
     (let cronJob = \<lparr>pattern = cron s, jobId = job s, scheduleId = sid s, running = False\<rparr>;
          h = length (heap st)
      in st\<lparr>heap := heap st @ [cronJob\<lparr>running := True\<rparr>],
            cronJobs := AList.update (sid s) h (cronJobs st),
            scheduleTable := AList.update (sid s) True (scheduleTable st)\<rparr>)"

definition enable' :: "(string \<Rightarrow> bool) \<Rightarrow> scheduler \<Rightarrow> schedule \<Rightarrow> error option \<times> scheduler" where
  "enable' parses st s =
     (if \<not> parses (cron s) then (Some CronError, st) else (None, started st s))"

text \<open>
  \<open>_disable\<close>: \<open>this._cronJobs[id].stop()\<close> stops the handle stored under the id; when
  none is stored the expression reads \<open>undefined\<close> or an inherited value, neither of
  which has a method \<open>stop\<close>, and the call throws a \<open>TypeError\<close>.
\<close>

definition disable' :: "scheduler \<Rightarrow> scheduleOrId \<Rightarrow> error option \<times> scheduler" where
  "disable' st x =
     (case exists_schedule st x of
        Inl e \<Rightarrow> (Some e, st)
      | Inr False \<Rightarrow> (Some (new_NoSuchSchedule x), st)
      | Inr True \<Rightarrow>
          (case isEnabled st x of
             Inl e \<Rightarrow> (Some e, st)
           | Inr False \<Rightarrow> (Some (new_ScheduleNotEnabled x), st)
           | Inr True \<Rightarrow>
               (case resolveId' x of
                  Inl e \<Rightarrow> (Some e, st)
                | Inr i \<Rightarrow>
                    (case map_of (cronJobs st) i of
                       None \<Rightarrow> (Some TypeError, st)
                     | Some h \<Rightarrow>
                         (None, st\<lparr>heap := stop h (heap st),
                                   cronJobs := AList.delete i (cronJobs st),
                                   scheduleTable := AList.update i False (scheduleTable st)\<rparr>)))))"

definition add' :: "(string \<Rightarrow> bool) \<Rightarrow> scheduler \<Rightarrow> schedule \<Rightarrow> error option \<times> scheduler" where
  "add' parses st s =
     (case resolveId' (ArgSchedule s) of
        Inl e \<Rightarrow> (Some e, st)
      | Inr i \<Rightarrow>
          (let st1 = st\<lparr>schedules := AList.update i s (schedules st),
                        scheduleTable := AList.update i False (scheduleTable st)\<rparr>
           in if enabled s then enable' parses st1 s else (None, st1)))"

definition add :: "(string \<Rightarrow> bool) \<Rightarrow> scheduler \<Rightarrow> schedule \<Rightarrow> error option \<times> scheduler" where
  "add parses st s =
     (case exists_schedule st (ArgSchedule s) of
        Inl e \<Rightarrow> (Some e, st)
      | Inr True \<Rightarrow> (Some (new_ScheduleOverride (ArgSchedule s)), st)
      | Inr False \<Rightarrow> add' parses st s)"

text \<open>
  \<open>remove\<close>: the \<open>try\<close> block, the \<open>catch\<close> block with its guard as the source parses,
  and the \<open>finally\<close> block, which indexes both tables with the raw argument.
\<close>

definition remove :: "scheduler \<Rightarrow> scheduleOrId \<Rightarrow> error option \<times> scheduler" where
  "remove st x =
     (let (thrown, st1) =
            (case disable' st x of
               (None, st') \<Rightarrow> (None, st')
             | (Some exc, st') \<Rightarrow>
                 (if instanceof_SchedulerError (logical_not (ErrorObject exc))
                  then (Some exc, st')
                  else (None, st')));
          k = property_key x
      in (thrown, st1\<lparr>schedules := AList.delete k (schedules st1),
                      scheduleTable := AList.delete k (scheduleTable st1)\<rparr>))"

definition update :: "(string \<Rightarrow> bool) \<Rightarrow> scheduler \<Rightarrow> schedule \<Rightarrow> error option \<times> scheduler" where
  "update parses st s =
     (case exists_schedule st (ArgSchedule s) of
        Inl e \<Rightarrow> (Some e, st)
      | Inr False \<Rightarrow> (Some (new_NoSuchSchedule (ArgSchedule s)), st)
      | Inr True \<Rightarrow>
          (case isEnabled st (ArgSchedule s) of
             Inl e \<Rightarrow> (Some e, st)
           | Inr en \<Rightarrow>
               (case (if en then disable' st (ArgSchedule s) else (None, st)) of
                  (Some e, st') \<Rightarrow> (Some e, st')
                | (None, st') \<Rightarrow> add' parses st' s)))"

text \<open>
  \<open>disableAll\<close>: \<open>forEach\<close> takes the own keys of the table once, in their enumeration
  order, and reads each value when it visits the key; an exception of the callback ends
  the loop.
\<close>

fun disableAll_loop :: "string list \<Rightarrow> scheduler \<Rightarrow> error option \<times> scheduler" where
  "disableAll_loop [] st = (None, st)"
| "disableAll_loop (i # ids) st =
     (if map_of (scheduleTable st) i = Some True
      then (case disable' st (ArgId i) of
              (Some e, st') \<Rightarrow> (Some e, st')
            | (None, st') \<Rightarrow> disableAll_loop ids st')
      else disableAll_loop ids st)"

definition disableAll :: "scheduler \<Rightarrow> error option \<times> scheduler" where
  "disableAll st = disableAll_loop (own_keys (scheduleTable st)) st"

subsection \<open>Properties of a state\<close>

text \<open>A handle is stored for a key exactly when the key's entry is marked enabled.\<close>

definition timer_iff_enabled :: "scheduler \<Rightarrow> bool" where
  "timer_iff_enabled st =
     list_all (\<lambda>k. (map_of (cronJobs st) k \<noteq> None) = (map_of (scheduleTable st) k = Some True))
       (map fst (cronJobs st) @ map fst (scheduleTable st))"

text \<open>The handles of the running timers whose callback belongs to schedule \<open>k\<close>.\<close>

definition running_for :: "scheduler \<Rightarrow> string \<Rightarrow> nat list" where
  "running_for st k =
     filter (\<lambda>h. running (heap st ! h) \<and> scheduleId (heap st ! h) = k) [0..<length (heap st)]"

definition one_timer_per_id :: "scheduler \<Rightarrow> bool" where
  "one_timer_per_id st =
     list_all (\<lambda>j. length (running_for st (scheduleId j)) \<le> 1) (heap st)"

definition timer_invariant :: "scheduler \<Rightarrow> bool" where
  "timer_invariant st = (timer_iff_enabled st \<and> one_timer_per_id st)"

text \<open>
  The states the public methods keep the scheduler in: both tables hold the same keys,
  every stored handle is a running timer of its key, and every running timer is the one
  stored for its schedule.
\<close>

definition same_ids :: "scheduler \<Rightarrow> bool" where
  "same_ids st = (set (map fst (schedules st)) = set (map fst (scheduleTable st)))"

definition handles_live :: "scheduler \<Rightarrow> bool" where
  "handles_live st =
     list_all (\<lambda>k. case map_of (cronJobs st) k of
                      None \<Rightarrow> True
                    | Some h \<Rightarrow> h < length (heap st) \<and> running (heap st ! h)
                                 \<and> scheduleId (heap st ! h) = k)
       (map fst (cronJobs st))"

definition no_stale_timer :: "scheduler \<Rightarrow> bool" where
  "no_stale_timer st =
     list_all (\<lambda>h. \<not> running (heap st ! h)
                    \<or> map_of (cronJobs st) (scheduleId (heap st ! h)) = Some h)
       [0..<length (heap st)]"

definition consistent :: "scheduler \<Rightarrow> bool" where
  "consistent st =
     (same_ids st \<and> timer_iff_enabled st \<and> handles_live st \<and> no_stale_timer st)"

text \<open>
  States and schedules used to run the methods on concrete inputs. \<open>five_or_six_fields\<close>
  stands in for the parser of the cron library there: it accepts a pattern of five or six
  fields separated by blanks.
\<close>

fun fields :: "string \<Rightarrow> string \<Rightarrow> string list" where
  "fields w [] = (if w = [] then [] else [w])"
| "fields w (c # cs) =
     (if c = CHR '' '' then (if w = [] then fields [] cs else w # fields [] cs)
      else fields (w @ [c]) cs)"

definition five_or_six_fields :: "string \<Rightarrow> bool" where
  "five_or_six_fields p = (length (fields [] p) = 5 \<or> length (fields [] p) = 6)"

definition nameless :: schedule where
  "nameless = \<lparr>sid = [], cron = ''* * * * *'', job = ''j1'', enabled = True\<rparr>"

definition sched_bad :: schedule where
  "sched_bad = \<lparr>sid = ''s1'', cron = ''every minute'', job = ''j1'', enabled = True\<rparr>"

definition sched_inherited :: schedule where
  "sched_inherited = \<lparr>sid = ''toString'', cron = ''* * * * *'', job = ''j1'', enabled = True\<rparr>"

definition sched1 :: schedule where
  "sched1 = \<lparr>sid = ''s1'', cron = ''* * * * *'', job = ''j1'', enabled = True\<rparr>"

definition sched1' :: schedule where
  "sched1' = \<lparr>sid = ''s1'', cron = ''0 * * * *'', job = ''j2'', enabled = True\<rparr>"

definition timer1 :: cronjob where
  "timer1 = \<lparr>pattern = ''* * * * *'', jobId = ''j1'', scheduleId = ''s1'', running = True\<rparr>"

definition timer1' :: cronjob where
  "timer1' = \<lparr>pattern = ''0 * * * *'', jobId = ''j2'', scheduleId = ''s1'', running = True\<rparr>"

definition one_enabled :: scheduler where
  "one_enabled =
     \<lparr>schedules = [(''s1'', sched1)], scheduleTable = [(''s1'', True)],
      cronJobs = [(''s1'', 0)], heap = [timer1]\<rparr>"

definition one_disabled :: scheduler where
  "one_disabled =
     \<lparr>schedules = [(''s1'', sched1)], scheduleTable = [(''s1'', False)],
      cronJobs = [], heap = [timer1\<lparr>running := False\<rparr>]\<rparr>"

definition one_updated :: scheduler where
  "one_updated =
     \<lparr>schedules = [(''s1'', sched1')], scheduleTable = [(''s1'', True)],
      cronJobs = [(''s1'', 1)], heap = [timer1\<lparr>running := False\<rparr>, timer1']\<rparr>"

text \<open>An entry marked enabled for which no handle is stored.\<close>

definition handle_missing :: scheduler where
  "handle_missing =
     \<lparr>schedules = [(''s1'', sched1)], scheduleTable = [(''s1'', True)],
      cronJobs = [], heap = []\<rparr>"

section \<open>The dispatcher (scheduler.js from line 160, class Api and its checks)\<close>

subsection \<open>Errors, users, objects and values\<close>

text \<open>
  The error classes of api-errors.js; \<open>Failure\<close> stands for any exception that is not a
  \<open>JsonRpcError\<close>.
\<close>

datatype api_error =
  MethodNotFound string
  | InvalidParameters
  | NotImplemented
  | NoSuchObject
  | Unauthorized
  | InvalidCredential
  | AlreadyAuthenticated
  | Failure string

text \<open>
  The user model of xo.coffee. \<open>hasPermission\<close> is
  \<open>perms[@get 'permission'] >= perms[permission]\<close> on the object literal \<open>perms\<close>. A
  name of the table reads its number; a name of \<open>Object.prototype\<close> reads the inherited
  function (or, for \<open>__proto__\<close>, the prototype object), which \<open>>=\<close> converts to the
  string of its source text; any other name reads \<open>undefined\<close>. \<open>>=\<close> compares two
  numbers as numbers and two strings by their code units; it is false between a number
  and one of these strings, and whenever a side is \<open>undefined\<close>.
\<close>

record user =
  user_id :: string
  user_permission :: string

datatype level = Level nat | NativeText string | NoLevel

definition native_text :: "string \<Rightarrow> string" where
  "native_text name =
     (if name = ''__proto__'' then ''[object Object]''
      else if name = ''constructor'' then ''function Object() { [native code] }''
      else ''function '' @ name @ ''() { [native code] }'')"

definition perms :: "string \<Rightarrow> level" where
  "perms p =
     (if p = ''none'' then Level 0
      else if p = ''read'' then Level 1
      else if p = ''write'' then Level 2
      else if p = ''admin'' then Level 3
      else if p \<in> set Object_prototype then NativeText (native_text p)
      else NoLevel)"

fun string_less :: "string \<Rightarrow> string \<Rightarrow> bool" where
  "string_less [] [] = False"
| "string_less [] (y # ys) = True"
| "string_less (x # xs) [] = False"
| "string_less (x # xs) (y # ys) =
     ((of_char x :: int) < of_char y \<or> (x = y \<and> string_less xs ys))"

fun greater_or_equal :: "level \<Rightarrow> level \<Rightarrow> bool" where
  "greater_or_equal (Level held) (Level wanted) = (wanted \<le> held)"
| "greater_or_equal (NativeText a) (NativeText b) = (\<not> string_less a b)"
| "greater_or_equal _ _ = False"

definition hasPermission :: "user \<Rightarrow> string \<Rightarrow> bool" where
  "hasPermission u p = greater_or_equal (perms (user_permission u)) (perms p)"

text \<open>
  An object of the store: its id, its type, its properties that hold the id of another
  object (\<open>$network\<close>, \<open>$VM\<close>, \<open>VDI\<close>, ...) and its \<open>$VBDs\<close> list.
\<close>

record xo_object =
  oid :: string
  otype :: string
  props :: "(string \<times> string) list"
  VBDs :: "string list"

text \<open>
  The values of a params object: \<open>Inherited name\<close> is what reading a name of
  \<open>Object.prototype\<close> gives when the object has no own property of that name.
\<close>

datatype jsval = Undefined | Str string | Obj xo_object | Bool bool | Inherited string

definition property :: "xo_object \<Rightarrow> string \<Rightarrow> jsval" where
  "property obj name = (case map_of (props obj) name of None \<Rightarrow> Undefined | Some i \<Rightarrow> Str i)"

type_synonym params = "(string \<times> jsval) list"

definition pget :: "params \<Rightarrow> string \<Rightarrow> jsval" where
  "pget ps k =
     (case map_of ps k of
        Some v \<Rightarrow> v
      | None \<Rightarrow> (if k \<in> set Object_prototype then Inherited k else Undefined))"

text \<open>
  The collaborators a call context inherits. Their code is not part of these sources, so
  they are parameters: the object accessors, which return the object or throw; the
  permission store \<open>this.hasPermission(userId, objectId, permission)\<close>; and the user
  lookup.
\<close>

record ctx =
  getObject :: "jsval \<Rightarrow> string list option \<Rightarrow> api_error + xo_object"
  getObjects :: "string list \<Rightarrow> string \<Rightarrow> api_error + xo_object list"
  acl :: "string \<Rightarrow> string \<Rightarrow> string \<Rightarrow> bool"
  getUser :: "string \<Rightarrow> api_error + user option"

subsection \<open>Methods\<close>

text \<open>The \<open>permission\<close> property of a method: absent, a falsy value, or a name.\<close>

datatype permission_decl = PUndefined | PNull | PString string

fun falsy :: "permission_decl \<Rightarrow> bool" where
  "falsy PUndefined = True"
| "falsy PNull = True"
| "falsy (PString p) = (p = [])"

text \<open>
  An entry \<open>key: [param, types, permission]\<close> of a method's \<open>resolve\<close> property; the
  permission defaults to \<open>administrate\<close> when the array has no third element.
  The \<open>resolve\<close> property is the list of its entries in the order in which \<open>forEach\<close>
  visits them.
\<close>

record resolve_entry =
  r_param :: string
  r_types :: "string list option"
  r_permission :: "string option"

definition entry_permission :: "resolve_entry \<Rightarrow> string" where
  "entry_permission e = (case r_permission e of None \<Rightarrow> ''administrate'' | Some p \<Rightarrow> p)"

text \<open>
  A method: its properties and its body. The \<open>params\<close> schema is given by the verdict
  \<open>schemaInspector.validate\<close> returns for it.
\<close>

record api_method =
  permission :: permission_decl
  schema :: "(params \<Rightarrow> bool) option"
  resolve :: "(string \<times> resolve_entry) list option"
  body :: "params \<Rightarrow> api_error + jsval"

subsection \<open>The stages of a call\<close>

definition checkPermission :: "user option \<Rightarrow> api_method \<Rightarrow> api_error option" where
  "checkPermission usr m =
     (if permission m = PUndefined then None
      else case usr of
        None \<Rightarrow> Some Unauthorized
      | Some u \<Rightarrow>
          (if falsy (permission m) then None
           else case permission m of
             PString p \<Rightarrow> (if \<not> hasPermission u p then Some Unauthorized else None)
           | _ \<Rightarrow> None))"

definition checkParams :: "api_method \<Rightarrow> params \<Rightarrow> api_error option" where
  "checkParams m ps =
     (case schema m of
        None \<Rightarrow> None
      | Some valid \<Rightarrow> (if \<not> valid ps then Some InvalidParameters else None))"

text \<open>
  A promise of an authorization check is \<open>Some True\<close> when it resolves, \<open>Some False\<close>
  when it rejects and \<open>None\<close> when the recursion has not ended within the fuel.
  \<open>Bluebird.any\<close> resolves as soon as one promise resolves and rejects when all have
  rejected; \<open>Bluebird.all\<close> rejects as soon as one promise rejects and resolves when all
  have resolved.
\<close>

definition any_of :: "bool option list \<Rightarrow> bool option" where
  "any_of vs =
     (if Some True \<in> set vs then Some True
      else if None \<in> set vs then None
      else Some False)"

definition all_of :: "bool option list \<Rightarrow> bool option" where
  "all_of vs =
     (if Some False \<in> set vs then Some False
      else if None \<in> set vs then None
      else Some True)"

text \<open>
  The table \<open>checkAuthorizationByTypes\<close>. Its functions call \<open>checkAuthorization\<close>,
  which the source declares ahead of them, with the user id and the permission they were
  given; here they take that call as the parameter \<open>check\<close>. An accessor that throws
  inside a function of the table rejects its promise.
\<close>

definition authorized :: "xo_object \<Rightarrow> bool option" where
  "authorized object = Some True"

definition checkMemberAuthorization ::
  "string \<Rightarrow> (xo_object \<Rightarrow> bool option) \<Rightarrow> ctx \<Rightarrow> xo_object \<Rightarrow> bool option" where
  "checkMemberAuthorization member_name check c object =
     (case getObject c (property object member_name) None of
        Inl e \<Rightarrow> Some False
      | Inr memberObject \<Rightarrow> check memberObject)"

definition check_VDI :: "(xo_object \<Rightarrow> bool option) \<Rightarrow> ctx \<Rightarrow> xo_object \<Rightarrow> bool option" where
  "check_VDI check c vdi =
     (case getObjects c (VBDs vdi) ''VBD'' of
        Inl e \<Rightarrow> Some False
      | Inr vbds \<Rightarrow>
          (let promises = map (\<lambda>vbd.
                 case getObject c (property vbd ''VM'') (Some [''VM'']) of
                   Inl e \<Rightarrow> Inl e
                 | Inr vm \<Rightarrow> Inr (check vm)) vbds
           in if list_ex isl promises then Some False
              else case getObject c (property vdi ''$SR'') (Some [''SR'']) of
                Inl e \<Rightarrow> Some False
              | Inr sr \<Rightarrow> any_of (map projr promises @ [check sr])))"

definition check_VIF :: "(xo_object \<Rightarrow> bool option) \<Rightarrow> ctx \<Rightarrow> xo_object \<Rightarrow> bool option" where
  "check_VIF check c vif =
     (case getObject c (property vif ''$network'') None of
        Inl e \<Rightarrow> Some False
      | Inr network \<Rightarrow>
          (case getObject c (property vif ''$VM'') None of
             Inl e \<Rightarrow> Some False
           | Inr vm \<Rightarrow> any_of [check network, check vm]))"

text \<open>
  A type that names a property of \<open>Object.prototype\<close> reads the inherited value from the
  table. Called with \<open>(userId, object, permission)\<close> the inherited functions return a
  value, which resolves the promise, except \<open>__defineGetter__\<close> and \<open>__defineSetter__\<close>,
  which throw because their second argument is not a function; the value under
  \<open>__proto__\<close> is not a function and has no \<open>call\<close>, so calling it throws too.
\<close>

definition inherited_resolves :: "xo_object \<Rightarrow> bool option" where
  "inherited_resolves object = Some True"

definition inherited_throws :: "xo_object \<Rightarrow> bool option" where
  "inherited_throws object = Some False"

definition checkAuthorizationByTypes ::
  "string \<Rightarrow> ((xo_object \<Rightarrow> bool option) \<Rightarrow> ctx \<Rightarrow> xo_object \<Rightarrow> bool option) option" where
  "checkAuthorizationByTypes ty =
     (if ty = ''network'' then Some (\<lambda>check c. authorized)
      else if ty = ''VM-template'' then Some (\<lambda>check c. authorized)
      else if ty = ''message'' then Some (checkMemberAuthorization ''$object'')
      else if ty = ''task'' then Some (checkMemberAuthorization ''$host'')
      else if ty = ''VBD'' then Some (checkMemberAuthorization ''VDI'')
      else if ty = ''VDI'' then Some check_VDI
      else if ty = ''VIF'' then Some check_VIF
      else if ty = ''VM-snapshot'' then Some (checkMemberAuthorization ''$snapshot_of'')
      else if ty = ''__defineGetter__'' \<or> ty = ''__defineSetter__'' \<or> ty = ''__proto__''
        then Some (\<lambda>check c. inherited_throws)
      else if ty \<in> set Object_prototype then Some (\<lambda>check c. inherited_resolves)
      else None)"

definition defaultCheckAuthorization :: "ctx \<Rightarrow> string \<Rightarrow> xo_object \<Rightarrow> string \<Rightarrow> bool option" where
  "defaultCheckAuthorization c userId object perm = Some (acl c userId (oid object) perm)"

text \<open>
  \<open>checkAuthorization\<close>: the function of the table for the object's type, or the default
  one. Each call uses one unit of fuel.
\<close>

fun checkAuthorization :: "nat \<Rightarrow> ctx \<Rightarrow> string \<Rightarrow> xo_object \<Rightarrow> string \<Rightarrow> bool option" where
  "checkAuthorization 0 c userId object perm = None"
| "checkAuthorization (Suc n) c userId object perm =
     (case checkAuthorizationByTypes (otype object) of
        Some fn \<Rightarrow> fn (\<lambda>obj. checkAuthorization n c userId obj perm) c object
      | None \<Rightarrow> defaultCheckAuthorization c userId object perm)"

text \<open>
  The \<open>forEach\<close> of \<open>resolveParams\<close>, with the \<open>params\<close> object it mutates and the
  \<open>promises\<close> array it fills. An accessor that throws ends the loop and the function;
  what the loop had done by then is returned with the exception.
\<close>

fun resolve_loop ::
  "nat \<Rightarrow> ctx \<Rightarrow> string \<Rightarrow> bool \<Rightarrow> (string \<times> resolve_entry) list \<Rightarrow> params \<Rightarrow> bool option list
     \<Rightarrow> api_error option \<times> params \<times> bool option list" where
  "resolve_loop n c userId isAdmin [] ps promises = (None, ps, promises)"
| "resolve_loop n c userId isAdmin ((key, e) # es) ps promises =
     (if pget ps (r_param e) = Undefined then resolve_loop n c userId isAdmin es ps promises
      else case getObject c (pget ps (r_param e)) (r_types e) of
        Inl err \<Rightarrow> (Some err, ps, promises)
      | Inr object \<Rightarrow>
          resolve_loop n c userId isAdmin es
            (AList.update key (Obj object) (AList.delete (r_param e) ps))
            (if \<not> isAdmin
             then promises @ [checkAuthorization n c userId object (entry_permission e)]
             else promises))"

definition resolveParams ::
  "nat \<Rightarrow> ctx \<Rightarrow> user option \<Rightarrow> api_method \<Rightarrow> params \<Rightarrow> (api_error + params) option" where
  "resolveParams n c usr m ps =
     (case resolve m of
        None \<Rightarrow> Some (Inr ps)
      | Some es \<Rightarrow>
          (case usr of
             None \<Rightarrow> Some (Inl Unauthorized)
           | Some u \<Rightarrow>
               (case resolve_loop n c (user_id u) (hasPermission u ''admin'') es ps [] of
                  (Some err, ps', promises) \<Rightarrow> Some (Inl err)
                | (None, ps', promises) \<Rightarrow>
                    (case all_of promises of
                       None \<Rightarrow> None
                     | Some False \<Rightarrow> Some (Inl Unauthorized)
                     | Some True \<Rightarrow> Some (Inr ps')))))"

subsection \<open>call\<close>

text \<open>
  What a call did: the params its method body was invoked with, if it was invoked, and
  the result or exception of the call (\<open>None\<close> when an authorization check has not ended
  within the fuel).
\<close>

record report =
  invoked :: "params option"
  outcome :: "(api_error + jsval) option"

definition failed :: "api_error \<Rightarrow> report" where
  "failed e = \<lparr>invoked = None, outcome = Some (Inl e)\<rparr>"

text \<open>
  The user of the context: fetched when the session's \<open>user_id\<close> is truthy, absent
  otherwise.
\<close>

definition context_user :: "ctx \<Rightarrow> string option \<Rightarrow> api_error + user option" where
  "context_user c session_user_id =
     (case session_user_id of
        None \<Rightarrow> Inr None
      | Some userId \<Rightarrow> (if userId \<noteq> [] then getUser c userId else Inr None))"

definition call ::
  "nat \<Rightarrow> (string \<Rightarrow> api_method option) \<Rightarrow> ctx \<Rightarrow> string option \<Rightarrow> string \<Rightarrow> params \<Rightarrow> report" where
  "call n methods c session_user_id name ps =
     (case methods name of
        None \<Rightarrow> failed (MethodNotFound name)
      | Some m \<Rightarrow>
          (case context_user c session_user_id of
             Inl e \<Rightarrow> failed e
           | Inr usr \<Rightarrow>
               (case checkPermission usr m of
                  Some e \<Rightarrow> failed e
                | None \<Rightarrow>
                    (case checkParams m ps of
                       Some e \<Rightarrow> failed e
                     | None \<Rightarrow>
                         (case resolveParams n c usr m ps of
                            None \<Rightarrow> \<lparr>invoked = None, outcome = None\<rparr>
                          | Some (Inl e) \<Rightarrow> failed e
                          | Some (Inr ps') \<Rightarrow>
                              \<lparr>invoked = Some ps',
                               outcome = Some (case body m ps' of
                                  Inl e \<Rightarrow> Inl e
                                | Inr res \<Rightarrow> Inr (if res = Undefined then Bool True else res))\<rparr>)))))"

text \<open>An authorization check is granted, or denied, when some amount of fuel settles it so.\<close>

definition granted :: "ctx \<Rightarrow> string \<Rightarrow> xo_object \<Rightarrow> string \<Rightarrow> bool" where
  "granted c userId object perm = (\<exists>n. checkAuthorization n c userId object perm = Some True)"

definition denied :: "ctx \<Rightarrow> string \<Rightarrow> xo_object \<Rightarrow> string \<Rightarrow> bool" where
  "denied c userId object perm = (\<exists>n. checkAuthorization n c userId object perm = Some False)"

subsection \<open>A store, users and methods to run calls on\<close>

text \<open>
  Modelled from the spec: the object accessors \<open>getObject(id, expectedTypes?)\<close> and
  \<open>getObjects(ids, type)\<close>, whose code is not part of these sources. They return the
  object an id refers to and throw \<open>NoSuchObject\<close> when the id does not resolve, or
  resolves to an object whose type is not among the expected ones.
\<close>

definition store_getObject ::
  "(string \<times> xo_object) list \<Rightarrow> jsval \<Rightarrow> string list option \<Rightarrow> api_error + xo_object" where
  "store_getObject store v tys =
     (case v of
        Str i \<Rightarrow>
          (case map_of store i of
             None \<Rightarrow> Inl NoSuchObject
           | Some obj \<Rightarrow>
               (case tys of
                  None \<Rightarrow> Inr obj
                | Some ts \<Rightarrow> (if otype obj \<in> set ts then Inr obj else Inl NoSuchObject)))
      | _ \<Rightarrow> Inl NoSuchObject)"

fun store_getObjects ::
  "(string \<times> xo_object) list \<Rightarrow> string list \<Rightarrow> string \<Rightarrow> api_error + xo_object list" where
  "store_getObjects store [] ty = Inr []"
| "store_getObjects store (i # ids) ty =
     (case store_getObject store (Str i) (Some [ty]) of
        Inl e \<Rightarrow> Inl e
      | Inr obj \<Rightarrow>
          (case store_getObjects store ids ty of
             Inl e \<Rightarrow> Inl e
           | Inr objs \<Rightarrow> Inr (obj # objs)))"

definition net1 :: xo_object where
  "net1 = \<lparr>oid = ''net1'', otype = ''network'', props = [], VBDs = []\<rparr>"

definition vm1 :: xo_object where
  "vm1 = \<lparr>oid = ''vm1'', otype = ''VM'', props = [], VBDs = []\<rparr>"

definition vif1 :: xo_object where
  "vif1 = \<lparr>oid = ''vif1'', otype = ''VIF'',
            props = [(''$network'', ''net1''), (''$VM'', ''vm1'')], VBDs = []\<rparr>"

definition host1 :: xo_object where
  "host1 = \<lparr>oid = ''host1'', otype = ''host'', props = [], VBDs = []\<rparr>"

text \<open>A VIF whose network is not in the store.\<close>

definition vif2 :: xo_object where
  "vif2 = \<lparr>oid = ''vif2'', otype = ''VIF'',
            props = [(''$network'', ''gone''), (''$VM'', ''vm1'')], VBDs = []\<rparr>"

definition example_store :: "(string \<times> xo_object) list" where
  "example_store =
     [(''net1'', net1), (''vm1'', vm1), (''vif1'', vif1), (''vif2'', vif2), (''host1'', host1)]"

text \<open>
  Three users: an administrator, and two users of the default level \<open>none\<close>, of whom
  only \<open>u2\<close> has an entry in the permission store (on \<open>vm1\<close>).
\<close>

definition example_users :: "(string \<times> user) list" where
  "example_users =
     [(''u0'', \<lparr>user_id = ''u0'', user_permission = ''admin''\<rparr>),
      (''u1'', \<lparr>user_id = ''u1'', user_permission = ''none''\<rparr>),
      (''u2'', \<lparr>user_id = ''u2'', user_permission = ''none''\<rparr>)]"

definition example_ctx :: ctx where
  "example_ctx =
     \<lparr>getObject = store_getObject example_store,
      getObjects = store_getObjects example_store,
      acl = (\<lambda>userId objectId perm. (userId, objectId, perm) \<in> set [(''u2'', ''vm1'', ''administrate'')]),
      getUser = (\<lambda>userId. Inr (map_of example_users userId))\<rparr>"

text \<open>
  \<open>vif.delete\<close> and \<open>user.create\<close> with the properties the sources give them; a method
  whose only requirement is login; and a method with two resolve entries.
\<close>

definition vif_delete :: api_method where
  "vif_delete =
     \<lparr>permission = PUndefined,
      schema = Some (\<lambda>ps. case pget ps ''id'' of Str i \<Rightarrow> True | _ \<Rightarrow> False),
      resolve = Some [(''vif'', \<lparr>r_param = ''id'', r_types = Some [''VIF''],
                                r_permission = Some ''administrate''\<rparr>)],
      body = (\<lambda>ps. Inr Undefined)\<rparr>"

definition user_create :: api_method where
  "user_create =
     \<lparr>permission = PString ''admin'',
      schema = Some (\<lambda>ps. (case pget ps ''email'' of Str i \<Rightarrow> True | _ \<Rightarrow> False)
                         \<and> (case pget ps ''password'' of Str i \<Rightarrow> True | _ \<Rightarrow> False)
                         \<and> (case pget ps ''permission'' of
                               Undefined \<Rightarrow> True | Str i \<Rightarrow> True | _ \<Rightarrow> False)),
      resolve = None,
      body = (\<lambda>ps. Inr (Str ''u9''))\<rparr>"

definition login_only :: api_method where
  "login_only =
     \<lparr>permission = PString [], schema = None, resolve = None, body = (\<lambda>ps. Inr Undefined)\<rparr>"

definition vm_entry :: "string \<times> resolve_entry" where
  "vm_entry = (''vm'', \<lparr>r_param = ''id'', r_types = Some [''VM''], r_permission = None\<rparr>)"

definition host_entry :: "string \<times> resolve_entry" where
  "host_entry = (''host'', \<lparr>r_param = ''host_id'', r_types = Some [''host''],
                           r_permission = Some ''administrate''\<rparr>)"

text \<open>An entry that stores its object under the name of \<open>host_entry\<close>'s parameter.\<close>

definition clash_entry :: "string \<times> resolve_entry" where
  "clash_entry = (''host_id'', \<lparr>r_param = ''id'', r_types = Some [''VM''], r_permission = None\<rparr>)"

definition two_entries :: api_method where
  "two_entries =
     \<lparr>permission = PUndefined, schema = None,
      resolve = Some [vm_entry, host_entry],
      body = (\<lambda>ps. Inr Undefined)\<rparr>"

definition example_methods :: "string \<Rightarrow> api_method option" where
  "example_methods =
     map_of [(''vif.delete'', vif_delete), (''user.create'', user_create),
             (''session.ping'', login_only), (''vm.move'', two_entries)]"

section \<open>The scheduler: what a consistent state is\<close>

lemma timer_iff_enabled_iff:
  "timer_iff_enabled st =
     (\<forall>k. (map_of (cronJobs st) k \<noteq> None) = (map_of (scheduleTable st) k = Some True))"
  (is "_ = (\<forall>k. ?P k)")
proof
  assume a: "timer_iff_enabled st"
  then have b: "\<forall>k \<in> fst ` set (cronJobs st) \<union> fst ` set (scheduleTable st). ?P k"
    unfolding timer_iff_enabled_def list_all_iff by simp
  show "\<forall>k. ?P k"
  proof
    fix k
    show "?P k"
    proof (cases "k \<in> fst ` set (cronJobs st) \<union> fst ` set (scheduleTable st)")
      case True
      with b show ?thesis by blast
    next
      case False
      then have "map_of (cronJobs st) k = None" "map_of (scheduleTable st) k = None"
        by (simp_all add: map_of_eq_None_iff)
      then show ?thesis by simp
    qed
  qed
next
  assume "\<forall>k. ?P k"
  then show "timer_iff_enabled st"
    unfolding timer_iff_enabled_def list_all_iff by blast
qed

lemma handles_live_iff:
  "handles_live st =
     (\<forall>k h. map_of (cronJobs st) k = Some h \<longrightarrow>
        h < length (heap st) \<and> running (heap st ! h) \<and> scheduleId (heap st ! h) = k)"
proof
  assume a: "handles_live st"
  define P where "P = (\<lambda>k. case map_of (cronJobs st) k of None \<Rightarrow> True
       | Some h \<Rightarrow> h < length (heap st) \<and> running (heap st ! h) \<and> scheduleId (heap st ! h) = k)"
  from a have b: "\<forall>k\<in>fst ` set (cronJobs st). P k"
    unfolding handles_live_def list_all_iff P_def by simp
  show "\<forall>k h. map_of (cronJobs st) k = Some h \<longrightarrow>
        h < length (heap st) \<and> running (heap st ! h) \<and> scheduleId (heap st ! h) = k"
  proof (intro allI impI)
    fix k h
    assume m: "map_of (cronJobs st) k = Some h"
    then have "(k, h) \<in> set (cronJobs st)"
      by (rule map_of_SomeD)
    then have "k \<in> fst ` set (cronJobs st)"
      by (rule rev_image_eqI) simp
    with b have "P k" by blast
    with m show "h < length (heap st) \<and> running (heap st ! h) \<and> scheduleId (heap st ! h) = k"
      by (simp add: P_def)
  qed
next
  assume "\<forall>k h. map_of (cronJobs st) k = Some h \<longrightarrow>
        h < length (heap st) \<and> running (heap st ! h) \<and> scheduleId (heap st ! h) = k"
  then show "handles_live st"
    unfolding handles_live_def list_all_iff by (simp split: option.splits)
qed

lemma no_stale_timer_iff:
  "no_stale_timer st =
     (\<forall>h < length (heap st). running (heap st ! h) \<longrightarrow>
        map_of (cronJobs st) (scheduleId (heap st ! h)) = Some h)"
  unfolding no_stale_timer_def list_all_iff by auto

lemma at_most_one:
  assumes "distinct xs" "\<And>x y. x \<in> set xs \<Longrightarrow> y \<in> set xs \<Longrightarrow> x = y"
  shows "length xs \<le> Suc 0"
proof (cases xs)
  case Nil then show ?thesis by simp
next
  case (Cons a ys)
  show ?thesis
  proof (cases ys)
    case Nil with Cons show ?thesis by simp
  next
    case (Cons b zs)
    with \<open>xs = a # ys\<close> assms(1) have "a \<noteq> b" by simp
    moreover from Cons \<open>xs = a # ys\<close> have "a \<in> set xs" "b \<in> set xs" by simp_all
    then have "a = b" by (rule assms(2))
    ultimately show ?thesis by simp
  qed
qed

lemma no_stale_one_timer:
  assumes "no_stale_timer st"
  shows "length (running_for st k) \<le> Suc 0"
proof (rule at_most_one)
  show "distinct (running_for st k)" by (simp add: running_for_def)
next
  fix x y assume "x \<in> set (running_for st k)" "y \<in> set (running_for st k)"
  then have x: "x < length (heap st)" "running (heap st ! x)" "scheduleId (heap st ! x) = k"
    and y: "y < length (heap st)" "running (heap st ! y)" "scheduleId (heap st ! y) = k"
    by (simp_all add: running_for_def)
  from assms x have "map_of (cronJobs st) k = Some x"
    unfolding no_stale_timer_iff by blast
  moreover from assms y have "map_of (cronJobs st) k = Some y"
    unfolding no_stale_timer_iff by blast
  ultimately show "x = y" by simp
qed

lemma consistent_timer_invariant: "consistent st \<Longrightarrow> timer_invariant st"
  unfolding consistent_def timer_invariant_def one_timer_per_id_def list_all_iff
  by (simp add: no_stale_one_timer)

section \<open>The scheduler: each method keeps the state consistent\<close>

lemma started_fields:
  "schedules (started st s) = schedules st"
  "scheduleTable (started st s) = AList.update (sid s) True (scheduleTable st)"
  "cronJobs (started st s) = AList.update (sid s) (length (heap st)) (cronJobs st)"
  "heap (started st s) =
     heap st @ [\<lparr>pattern = cron s, jobId = job s, scheduleId = sid s, running = True\<rparr>]"
  by (simp_all add: started_def Let_def)

lemma started_consistent:
  assumes c: "consistent st"
    and present: "sid s \<in> fst ` set (schedules st)"
    and off: "map_of (scheduleTable st) (sid s) \<noteq> Some True"
  shows "consistent (started st s)"
proof -
  from c have ids: "same_ids st" and tie: "timer_iff_enabled st"
    and live: "handles_live st" and stale: "no_stale_timer st"
    by (simp_all add: consistent_def)
  from tie off have none: "map_of (cronJobs st) (sid s) = None"
    unfolding timer_iff_enabled_iff by blast
  have "same_ids (started st s)"
    using ids present by (auto simp: same_ids_def started_fields dom_update)
  moreover have "timer_iff_enabled (started st s)"
    using tie unfolding timer_iff_enabled_iff by (simp add: started_fields update_conv')
  moreover have "handles_live (started st s)"
    unfolding handles_live_iff
  proof (intro allI impI)
    fix k h
    assume m: "map_of (cronJobs (started st s)) k = Some h"
    show "h < length (heap (started st s)) \<and> running (heap (started st s) ! h)
            \<and> scheduleId (heap (started st s) ! h) = k"
    proof (cases "k = sid s")
      case True
      with m have "h = length (heap st)" by (simp add: started_fields update_conv')
      with True show ?thesis by (simp add: started_fields)
    next
      case False
      with m have "map_of (cronJobs st) k = Some h" by (simp add: started_fields update_conv')
      with live have "h < length (heap st) \<and> running (heap st ! h) \<and> scheduleId (heap st ! h) = k"
        unfolding handles_live_iff by blast
      then show ?thesis by (simp add: started_fields nth_append)
    qed
  qed
  moreover have "no_stale_timer (started st s)"
    unfolding no_stale_timer_iff
  proof (intro allI impI)
    fix h
    assume h: "h < length (heap (started st s))" and r: "running (heap (started st s) ! h)"
    show "map_of (cronJobs (started st s)) (scheduleId (heap (started st s) ! h)) = Some h"
    proof (cases "h < length (heap st)")
      case True
      with r have r': "running (heap st ! h)" by (simp add: started_fields nth_append)
      with stale True have m: "map_of (cronJobs st) (scheduleId (heap st ! h)) = Some h"
        unfolding no_stale_timer_iff by blast
      with none have "scheduleId (heap st ! h) \<noteq> sid s" by auto
      with m True show ?thesis by (simp add: started_fields nth_append update_conv')
    next
      case False
      with h have "h = length (heap st)" by (simp add: started_fields)
      then show ?thesis by (simp add: started_fields update_conv')
    qed
  qed
  ultimately show ?thesis by (simp add: consistent_def)
qed

lemma enable'_consistent:
  assumes "consistent st"
    and "sid s \<in> fst ` set (schedules st)"
    and "map_of (scheduleTable st) (sid s) \<noteq> Some True"
  shows "consistent (snd (enable' parses st s))"
  using assms by (simp add: enable'_def started_consistent)

lemma own_has_property: "i \<in> fst ` set obj \<Longrightarrow> has_property obj i"
  by (simp add: has_property_def)

lemma disable'_undefined: "resolveId' x = Inl e \<Longrightarrow> disable' st x = (Some e, st)"
  by (simp add: disable'_def exists_schedule_def)

lemma disable'_absent:
  "resolveId' x = Inr i \<Longrightarrow> \<not> has_property (schedules st) i \<Longrightarrow>
     disable' st x = (Some (NoSuchSchedule (''No schedule found for ID '' @ i)), st)"
  by (simp add: disable'_def exists_schedule_def new_NoSuchSchedule_def)

lemma disable'_not_enabled:
  "resolveId' x = Inr i \<Longrightarrow> has_property (schedules st) i \<Longrightarrow>
     map_of (scheduleTable st) i = Some False
       \<or> (map_of (scheduleTable st) i = None \<and> i \<notin> set Object_prototype) \<Longrightarrow>
     disable' st x = (Some (ScheduleNotEnabled (''Schedule '' @ i)), st)"
  by (auto simp: disable'_def exists_schedule_def isEnabled_def new_ScheduleNotEnabled_def)

lemma disable'_no_handle:
  "resolveId' x = Inr i \<Longrightarrow> has_property (schedules st) i \<Longrightarrow>
     map_of (scheduleTable st) i = Some True
       \<or> (map_of (scheduleTable st) i = None \<and> i \<in> set Object_prototype) \<Longrightarrow>
     map_of (cronJobs st) i = None \<Longrightarrow>
     disable' st x = (Some TypeError, st)"
  by (auto simp: disable'_def exists_schedule_def isEnabled_def)

lemma disable'_enabled:
  "resolveId' x = Inr i \<Longrightarrow> has_property (schedules st) i \<Longrightarrow>
     map_of (scheduleTable st) i = Some True
       \<or> (map_of (scheduleTable st) i = None \<and> i \<in> set Object_prototype) \<Longrightarrow>
     map_of (cronJobs st) i = Some h \<Longrightarrow>
     disable' st x =
       (None, st\<lparr>heap := stop h (heap st),
                 cronJobs := AList.delete i (cronJobs st),
                 scheduleTable := AList.update i False (scheduleTable st)\<rparr>)"
  by (auto simp: disable'_def exists_schedule_def isEnabled_def)

lemma disable'_result:
  "(\<exists>e. disable' st x = (Some e, st)) \<or>
   (\<exists>i h. resolveId' x = Inr i \<and> map_of (cronJobs st) i = Some h
       \<and> disable' st x =
         (None, st\<lparr>heap := stop h (heap st),
                   cronJobs := AList.delete i (cronJobs st),
                   scheduleTable := AList.update i False (scheduleTable st)\<rparr>))"
proof (cases "resolveId' x")
  case (Inl e)
  then show ?thesis by (simp add: disable'_undefined)
next
  case (Inr i)
  show ?thesis
  proof (cases "has_property (schedules st) i")
    case False
    with Inr show ?thesis by (simp add: disable'_absent)
  next
    case True
    show ?thesis
    proof (cases "map_of (scheduleTable st) i = Some True
       \<or> (map_of (scheduleTable st) i = None \<and> i \<in> set Object_prototype)")
      case False
      then have "map_of (scheduleTable st) i = Some False
       \<or> (map_of (scheduleTable st) i = None \<and> i \<notin> set Object_prototype)"
        by (cases "map_of (scheduleTable st) i") auto
      with Inr True show ?thesis by (simp add: disable'_not_enabled)
    next
      case on: True
      show ?thesis
      proof (cases "map_of (cronJobs st) i")
        case None
        with Inr True on show ?thesis by (simp add: disable'_no_handle)
      next
        case (Some h)
        with Inr True on show ?thesis by (simp add: disable'_enabled)
      qed
    qed
  qed
qed

lemma stop_length [simp]: "length (stop h js) = length js"
  by (simp add: stop_def)

lemma stop_nth:
  "h' < length js \<Longrightarrow>
     stop h js ! h' = (if h' = h then (js ! h')\<lparr>running := False\<rparr> else js ! h')"
  by (simp add: stop_def)

lemma stored_is_present:
  assumes c: "consistent st" and handle: "map_of (cronJobs st) i = Some h"
  shows "map_of (scheduleTable st) i = Some True" and "i \<in> fst ` set (schedules st)"
proof -
  from c have ids: "same_ids st" and tie: "timer_iff_enabled st"
    by (simp_all add: consistent_def)
  from tie handle show on: "map_of (scheduleTable st) i = Some True"
    unfolding timer_iff_enabled_iff by (metis option.distinct(1))
  then have "(i, True) \<in> set (scheduleTable st)" by (rule map_of_SomeD)
  then have "i \<in> fst ` set (scheduleTable st)" by (rule rev_image_eqI) simp
  with ids show "i \<in> fst ` set (schedules st)" by (simp add: same_ids_def)
qed

lemma stopped_consistent:
  assumes c: "consistent st"
    and present: "i \<in> fst ` set (schedules st)"
    and handle: "map_of (cronJobs st) i = Some h"
  shows "consistent (st\<lparr>heap := stop h (heap st),
                 cronJobs := AList.delete i (cronJobs st),
                 scheduleTable := AList.update i False (scheduleTable st)\<rparr>)"
    (is "consistent ?st'")
proof -
  from c have ids: "same_ids st" and tie: "timer_iff_enabled st"
    and live: "handles_live st" and stale: "no_stale_timer st"
    by (simp_all add: consistent_def)
  from live handle have h: "h < length (heap st)" "scheduleId (heap st ! h) = i"
    unfolding handles_live_iff by blast+
  have "same_ids ?st'"
    using ids present by (auto simp: same_ids_def dom_update)
  moreover have "timer_iff_enabled ?st'"
    using tie unfolding timer_iff_enabled_iff by (simp add: update_conv' delete_conv')
  moreover have "handles_live ?st'"
    unfolding handles_live_iff
  proof (intro allI impI)
    fix k h'
    assume m: "map_of (cronJobs ?st') k = Some h'"
    then have k: "k \<noteq> i" by (auto simp: delete_conv')
    with m have m': "map_of (cronJobs st) k = Some h'" by (simp add: delete_conv')
    with live have l: "h' < length (heap st)" "running (heap st ! h')" "scheduleId (heap st ! h') = k"
      unfolding handles_live_iff by blast+
    with h k have "h' \<noteq> h" by auto
    with l show "h' < length (heap ?st') \<and> running (heap ?st' ! h')
            \<and> scheduleId (heap ?st' ! h') = k"
      by (simp add: stop_nth)
  qed
  moreover have "no_stale_timer ?st'"
    unfolding no_stale_timer_iff
  proof (intro allI impI)
    fix h'
    assume b: "h' < length (heap ?st')" and r: "running (heap ?st' ! h')"
    then have ne: "h' \<noteq> h" by (auto simp: stop_nth)
    with b r have b': "h' < length (heap st)" and r': "running (heap st ! h')"
      by (simp_all add: stop_nth)
    with stale have m: "map_of (cronJobs st) (scheduleId (heap st ! h')) = Some h'"
      unfolding no_stale_timer_iff by blast
    with handle ne have "scheduleId (heap st ! h') \<noteq> i" by auto
    with m b' ne show "map_of (cronJobs ?st') (scheduleId (heap ?st' ! h')) = Some h'"
      by (simp add: stop_nth delete_conv')
  qed
  ultimately show ?thesis by (simp add: consistent_def)
qed

lemma disable'_consistent:
  assumes "consistent st"
  shows "consistent (snd (disable' st x))"
proof -
  from disable'_result [of st x] show ?thesis
  proof (elim disjE exE conjE)
    fix e
    assume "disable' st x = (Some e, st)"
    with assms show ?thesis by simp
  next
    fix i h
    assume h: "map_of (cronJobs st) i = Some h"
      and d: "disable' st x =
         (None, st\<lparr>heap := stop h (heap st),
                   cronJobs := AList.delete i (cronJobs st),
                   scheduleTable := AList.update i False (scheduleTable st)\<rparr>)"
    from assms h have "i \<in> fst ` set (schedules st)" by (rule stored_is_present)
    with assms h d show ?thesis by (simp add: stopped_consistent)
  qed
qed

lemma disable'_discards_handle:
  assumes c: "consistent st" and r: "resolveId' x = Inr i"
  shows "map_of (cronJobs (snd (disable' st x))) i = None"
    and "map_of (scheduleTable (snd (disable' st x))) i \<noteq> Some True"
proof -
  from c have tie: "timer_iff_enabled st" by (simp add: consistent_def)
  have a: "map_of (scheduleTable (snd (disable' st x))) i \<noteq> Some True"
  proof (cases "map_of (cronJobs st) i")
    case (Some h)
    with c have "map_of (scheduleTable st) i = Some True" "i \<in> fst ` set (schedules st)"
      by (rule stored_is_present)+
    with r Some show ?thesis
      by (simp add: disable'_enabled own_has_property update_conv')
  next
    case None
    with tie have off: "map_of (scheduleTable st) i \<noteq> Some True"
      unfolding timer_iff_enabled_iff by blast
    from disable'_result [of st x] show ?thesis
    proof (elim disjE exE conjE)
      fix e
      assume "disable' st x = (Some e, st)"
      with off show ?thesis by simp
    next
      fix i' h
      assume "resolveId' x = Inr i'" "map_of (cronJobs st) i' = Some h"
      with r None show ?thesis by simp
    qed
  qed
  then show "map_of (scheduleTable (snd (disable' st x))) i \<noteq> Some True" .
  from c have "consistent (snd (disable' st x))" by (rule disable'_consistent)
  then have "timer_iff_enabled (snd (disable' st x))" by (simp add: consistent_def)
  with a show "map_of (cronJobs (snd (disable' st x))) i = None"
    unfolding timer_iff_enabled_iff by blast
qed

lemma inserted_consistent:
  assumes c: "consistent st"
    and off: "map_of (scheduleTable st) i \<noteq> Some True"
  shows "consistent (st\<lparr>schedules := AList.update i s (schedules st),
                 scheduleTable := AList.update i False (scheduleTable st)\<rparr>)"
    (is "consistent ?st'")
proof -
  from c have ids: "same_ids st" and tie: "timer_iff_enabled st"
    and live: "handles_live st" and stale: "no_stale_timer st"
    by (simp_all add: consistent_def)
  from tie off have none: "map_of (cronJobs st) i = None"
    unfolding timer_iff_enabled_iff by blast
  have "same_ids ?st'"
    using ids by (simp add: same_ids_def dom_update)
  moreover have "timer_iff_enabled ?st'"
    using tie none off unfolding timer_iff_enabled_iff by (simp add: update_conv')
  moreover have "handles_live ?st'"
    using live unfolding handles_live_iff by simp
  moreover have "no_stale_timer ?st'"
    using stale unfolding no_stale_timer_iff by simp
  ultimately show ?thesis by (simp add: consistent_def)
qed

lemma add'_consistent:
  assumes c: "consistent st"
    and ne: "sid s \<noteq> []"
    and off: "map_of (scheduleTable st) (sid s) \<noteq> Some True"
  shows "consistent (snd (add' parses st s))"
proof -
  let ?st1 = "st\<lparr>schedules := AList.update (sid s) s (schedules st),
                 scheduleTable := AList.update (sid s) False (scheduleTable st)\<rparr>"
  from c off have c1: "consistent ?st1" by (rule inserted_consistent)
  have "consistent (snd (enable' parses ?st1 s))"
    by (rule enable'_consistent [OF c1]) (simp_all add: dom_update update_conv')
  with c1 ne show "consistent (snd (add' parses st s))"
    by (simp add: add'_def Let_def)
qed

lemma add_consistent:
  assumes c: "consistent st" and ne: "sid s \<noteq> []"
  shows "consistent (snd (add parses st s))"
proof (cases "has_property (schedules st) (sid s)")
  case True
  with c ne show ?thesis by (simp add: add_def exists_schedule_def)
next
  case False
  then have "sid s \<notin> fst ` set (schedules st)" by (simp add: has_property_def)
  with c have "sid s \<notin> fst ` set (scheduleTable st)"
    by (simp add: consistent_def same_ids_def)
  then have "map_of (scheduleTable st) (sid s) = None" by (simp add: map_of_eq_None_iff)
  then have "map_of (scheduleTable st) (sid s) \<noteq> Some True" by simp
  with c ne have "consistent (snd (add' parses st s))" by (rule add'_consistent)
  with False ne show ?thesis by (simp add: add_def exists_schedule_def)
qed

lemma remove_never_throws: "fst (remove st x) = None"
  by (simp add: remove_def logical_not_def Let_def split: prod.splits option.splits)

lemma remove_state:
  "snd (remove st x) =
     (snd (disable' st x))\<lparr>schedules := AList.delete (property_key x) (schedules (snd (disable' st x))),
        scheduleTable := AList.delete (property_key x) (scheduleTable (snd (disable' st x)))\<rparr>"
  by (simp add: remove_def logical_not_def Let_def split: prod.splits option.splits)

lemma purged_consistent:
  assumes c: "consistent st" and none: "map_of (cronJobs st) k = None"
  shows "consistent (st\<lparr>schedules := AList.delete k (schedules st),
                 scheduleTable := AList.delete k (scheduleTable st)\<rparr>)"
    (is "consistent ?st'")
proof -
  from c have ids: "same_ids st" and tie: "timer_iff_enabled st"
    and live: "handles_live st" and stale: "no_stale_timer st"
    by (simp_all add: consistent_def)
  from tie none have off: "map_of (scheduleTable st) k \<noteq> Some True"
    unfolding timer_iff_enabled_iff by blast
  have "same_ids ?st'"
    using ids by (simp add: same_ids_def delete_keys)
  moreover have "timer_iff_enabled ?st'"
    using tie none off unfolding timer_iff_enabled_iff by (simp add: delete_conv')
  moreover have "handles_live ?st'"
    using live unfolding handles_live_iff by simp
  moreover have "no_stale_timer ?st'"
    using stale unfolding no_stale_timer_iff by simp
  ultimately show ?thesis by (simp add: consistent_def)
qed

lemma remove_consistent:
  assumes c: "consistent st"
  shows "consistent (snd (remove st (ArgId k)))"
proof -
  from c have "consistent (snd (disable' st (ArgId k)))" by (rule disable'_consistent)
  moreover from c have "map_of (cronJobs (snd (disable' st (ArgId k)))) k = None"
    by (rule disable'_discards_handle) simp
  ultimately show ?thesis
    by (simp add: remove_state purged_consistent)
qed

lemma update_consistent:
  assumes c: "consistent st" and ne: "sid s \<noteq> []"
  shows "consistent (snd (update parses st s))"
proof (cases "has_property (schedules st) (sid s)")
  case False
  with c ne show ?thesis by (simp add: update_def exists_schedule_def)
next
  case True
  have r: "resolveId' (ArgSchedule s) = Inr (sid s)" using ne by simp
  define en where "en = (case map_of (scheduleTable st) (sid s) of
                 Some b \<Rightarrow> b | None \<Rightarrow> sid s \<in> set Object_prototype)"
  have u: "update parses st s =
     (case (if en then disable' st (ArgSchedule s) else (None, st)) of
        (Some e, st') \<Rightarrow> (Some e, st')
      | (None, st') \<Rightarrow> add' parses st' s)"
    using True ne unfolding en_def by (simp add: update_def exists_schedule_def isEnabled_def)
  show ?thesis
  proof (cases en)
    case False
    then have "map_of (scheduleTable st) (sid s) \<noteq> Some True"
      unfolding en_def by (cases "map_of (scheduleTable st) (sid s)") auto
    with c ne have "consistent (snd (add' parses st s))" by (rule add'_consistent)
    with u False show ?thesis by simp
  next
    case on: True
    let ?d = "disable' st (ArgSchedule s)"
    from c have cd: "consistent (snd ?d)" by (rule disable'_consistent)
    from c r have "map_of (scheduleTable (snd ?d)) (sid s) \<noteq> Some True"
      by (rule disable'_discards_handle)
    with cd ne have "consistent (snd (add' parses (snd ?d) s))" by (rule add'_consistent)
    with cd u on show ?thesis
      by (cases ?d) (auto split: option.splits)
  qed
qed

lemma disableAll_loop_consistent:
  "consistent st \<Longrightarrow> consistent (snd (disableAll_loop ks st))"
proof (induction ks arbitrary: st)
  case Nil
  then show ?case by simp
next
  case (Cons k ks)
  from Cons.prems have cd: "consistent (snd (disable' st (ArgId k)))"
    by (rule disable'_consistent)
  show ?case
  proof (cases "map_of (scheduleTable st) k = Some True")
    case False
    with Cons show ?thesis by simp
  next
    case True
    show ?thesis
    proof (cases "disable' st (ArgId k)")
      case (Pair e st')
      with cd have "consistent st'" by simp
      with Cons.IH [of st'] Pair True show ?thesis
        by (cases e) simp_all
    qed
  qed
qed

lemma disableAll_consistent: "consistent st \<Longrightarrow> consistent (snd (disableAll st))"
  by (simp add: disableAll_def disableAll_loop_consistent)

lemma empty_consistent: "consistent empty_scheduler"
  by code_simp

lemma add'_result:
  assumes "sid s \<noteq> []"
  shows "add' parses st s =
     ((if enabled s \<and> \<not> parses (cron s) then Some CronError else None),
      (if enabled s \<and> parses (cron s)
       then started (st\<lparr>schedules := AList.update (sid s) s (schedules st),
               scheduleTable := AList.update (sid s) False (scheduleTable st)\<rparr>) s
       else st\<lparr>schedules := AList.update (sid s) s (schedules st),
               scheduleTable := AList.update (sid s) False (scheduleTable st)\<rparr>))"
  using assms by (simp add: add'_def enable'_def Let_def)

lemma add'_fields:
  assumes "sid s \<noteq> []"
  shows "map_of (schedules (snd (add' parses st s))) (sid s) = Some s"
    and "heap (snd (add' parses st s)) =
           (if enabled s \<and> parses (cron s)
            then heap st @ [\<lparr>pattern = cron s, jobId = job s, scheduleId = sid s, running = True\<rparr>]
            else heap st)"
    and "map_of (cronJobs (snd (add' parses st s))) (sid s) =
           (if enabled s \<and> parses (cron s) then Some (length (heap st))
            else map_of (cronJobs st) (sid s))"
  using assms by (simp_all add: add'_result started_fields update_conv')

lemma running_for_set:
  "set (running_for st k) =
     {h. h < length (heap st) \<and> running (heap st ! h) \<and> scheduleId (heap st ! h) = k}"
  by (auto simp: running_for_def)

lemma update_absent:
  assumes "sid s \<noteq> []" and "\<not> has_property (schedules st) (sid s)"
  shows "update parses st s = (Some (NoSuchSchedule (''No schedule found for ID '' @ sid s)), st)"
  using assms by (simp add: update_def exists_schedule_def new_NoSuchSchedule_def)

lemma update_inherited:
  assumes "sid s \<in> set Object_prototype" and "sid s \<notin> fst ` set (schedules st)"
    and "map_of (scheduleTable st) (sid s) = None" and "map_of (cronJobs st) (sid s) = None"
  shows "update parses st s = (Some TypeError, st)"
proof -
  from assms(1) have ne: "sid s \<noteq> []" by (auto simp: Object_prototype_def)
  then have r: "resolveId' (ArgSchedule s) = Inr (sid s)" by simp
  from assms(1) have h: "has_property (schedules st) (sid s)" by (simp add: has_property_def)
  from r h assms have "disable' st (ArgSchedule s) = (Some TypeError, st)"
    by (simp add: disable'_no_handle)
  with ne h assms show ?thesis
    by (simp add: update_def exists_schedule_def isEnabled_def)
qed

lemma present_has_entry:
  assumes "consistent st" and "i \<in> fst ` set (schedules st)"
  shows "\<exists>b. map_of (scheduleTable st) i = Some b"
proof -
  from assms have "i \<in> fst ` set (scheduleTable st)" by (simp add: consistent_def same_ids_def)
  then have "map_of (scheduleTable st) i \<noteq> None" by (simp add: map_of_eq_None_iff)
  then show ?thesis by auto
qed

lemma update_present:
  assumes c: "consistent st" and ne: "sid s \<noteq> []"
    and present: "sid s \<in> fst ` set (schedules st)"
  shows "\<exists>st1. (if map_of (scheduleTable st) (sid s) = Some True
                then disable' st (ArgSchedule s) = (None, st1) else st1 = st)
           \<and> update parses st s = add' parses st1 s
           \<and> consistent st1
           \<and> map_of (cronJobs st1) (sid s) = None
           \<and> map_of (scheduleTable st1) (sid s) \<noteq> Some True
           \<and> length (heap st1) = length (heap st)
           \<and> (\<forall>h. map_of (cronJobs st) (sid s) = Some h \<longrightarrow>
                  h < length (heap st) \<and> \<not> running (heap st1 ! h))"
proof -
  from c have tie: "timer_iff_enabled st" and live: "handles_live st"
    by (simp_all add: consistent_def)
  have r: "resolveId' (ArgSchedule s) = Inr (sid s)" using ne by simp
  from present have hp: "has_property (schedules st) (sid s)" by (rule own_has_property)
  from c present obtain b where b: "map_of (scheduleTable st) (sid s) = Some b"
    using present_has_entry by blast
  show ?thesis
  proof (cases b)
    case False
    with b have off: "map_of (scheduleTable st) (sid s) \<noteq> Some True" by simp
    with tie have none: "map_of (cronJobs st) (sid s) = None"
      unfolding timer_iff_enabled_iff by blast
    from hp b False ne have "update parses st s = add' parses st s"
      by (simp add: update_def exists_schedule_def isEnabled_def)
    with c none off show ?thesis by simp
  next
    case True
    with b have on: "map_of (scheduleTable st) (sid s) = Some True" by simp
    with tie obtain h where h: "map_of (cronJobs st) (sid s) = Some h"
      unfolding timer_iff_enabled_iff by blast
    with live have hl: "h < length (heap st)"
      unfolding handles_live_iff by blast
    let ?st1 = "st\<lparr>heap := stop h (heap st),
                 cronJobs := AList.delete (sid s) (cronJobs st),
                 scheduleTable := AList.update (sid s) False (scheduleTable st)\<rparr>"
    from r hp on h have d: "disable' st (ArgSchedule s) = (None, ?st1)"
      by (simp add: disable'_enabled)
    with hp on ne have u: "update parses st s = add' parses ?st1 s"
      by (simp add: update_def exists_schedule_def isEnabled_def)
    from c present h have "consistent ?st1" by (rule stopped_consistent)
    with on d u h hl show ?thesis
      by (simp add: delete_conv' update_conv' stop_nth)
  qed
qed

section \<open>The scheduler: the methods\<close>

text \<open>
  C7. For a schedule whose id is already a key of the schedule table, \<open>add\<close> throws
  \<open>ScheduleOverride\<close> and the state it leaves (schedule table, runtime table, stored
  handles and timers) is the state it found. The id is a non-empty string: \<open>_resolveId\<close>
  keys a schedule with a falsy id under the string form of the object.
\<close>

theorem add_existing_id_fails:
  assumes "sid s \<noteq> []" and "sid s \<in> fst ` set (schedules st)"
  shows "add parses st s =
           (Some (ScheduleOverride (''Schedule ID '' @ sid s @ '' is already added'')), st)"
  using assms
  by (simp add: add_def exists_schedule_def has_property_def new_ScheduleOverride_def)

theorem add_existing_id_fails_witness:
  "sid sched1' \<noteq> [] \<and> sid sched1' \<in> fst ` set (schedules one_enabled)
   \<and> add five_or_six_fields empty_scheduler sched1 = (None, one_enabled)
   \<and> add five_or_six_fields one_enabled sched1' =
        (Some (ScheduleOverride ''Schedule ID s1 is already added''), one_enabled)"
proof -
  have h1: "sid sched1' \<noteq> []" by code_simp
  have h2: "sid sched1' \<in> fst ` set (schedules one_enabled)" by code_simp
  have "add five_or_six_fields empty_scheduler sched1 = (None, one_enabled)" by code_simp
  moreover have "''Schedule ID '' @ sid sched1' @ '' is already added'' = ''Schedule ID s1 is already added''"
    by code_simp
  ultimately show ?thesis
    using h1 h2 add_existing_id_fails [OF h1 h2, of five_or_six_fields] by simp
qed




text \<open>
  C6 fails in two ways. A schedule whose id is the empty string is keyed by \<open>_add\<close>
  under the string form of the object and by \<open>_enable\<close> under its id: after \<open>add\<close>,
  \<open>update\<close> finds the entry of the first key disabled, disables nothing and starts a
  second timer, so two timers run for the id. And for an id that names an inherited
  property and is not in the table, \<open>update\<close> throws a \<open>TypeError\<close>, which is not a
  \<open>SchedulerError\<close>, instead of \<open>NoSuchSchedule\<close>.
\<close>

theorem update_doubles_timer_or_throws:
  "fst (add five_or_six_fields empty_scheduler nameless) = None
   \<and> fst (update five_or_six_fields (snd (add five_or_six_fields empty_scheduler nameless))
           nameless) = None
   \<and> running_for (snd (update five_or_six_fields
                          (snd (add five_or_six_fields empty_scheduler nameless)) nameless))
        (sid nameless) = [0, 1]
   \<and> sid sched_inherited \<notin> fst ` set (schedules empty_scheduler)
   \<and> update five_or_six_fields empty_scheduler sched_inherited
       = (Some TypeError, empty_scheduler)
   \<and> \<not> is_SchedulerError TypeError"
  by code_simp

text \<open>
  C6, for a schedule with a non-empty id. \<open>update\<close> throws \<open>NoSuchSchedule\<close> when the
  id is not a key of the schedule table and not the name of an inherited property. On a
  consistent state that has the id: when the entry was enabled, \<open>update\<close> is \<open>_disable\<close>
  followed by \<open>_add\<close>; the timer of the handle stored before is stopped and is no longer
  the stored handle; \<open>update\<close> returns, unless the new definition is enabled with a
  pattern the \<open>CronJob\<close> constructor rejects, in which case it throws the constructor's
  exception; the running timers of the id are the one new timer (built from the new
  pattern and job) when the new definition is enabled and its pattern is accepted, and
  none otherwise; the table holds the new definition and the state is consistent.
\<close>

theorem update_replaces_timer:
  assumes ne: "sid s \<noteq> []"
  shows "(sid s \<notin> fst ` set (schedules st) \<and> sid s \<notin> set Object_prototype \<longrightarrow>
            update parses st s
              = (Some (NoSuchSchedule (''No schedule found for ID '' @ sid s)), st))
       \<and> (consistent st \<and> sid s \<in> fst ` set (schedules st) \<longrightarrow>
            (\<exists>st'. update parses st s
                   = ((if enabled s \<and> \<not> parses (cron s) then Some CronError else None), st')
               \<and> (map_of (scheduleTable st) (sid s) = Some True \<longrightarrow>
                    (\<exists>st1. disable' st (ArgSchedule s) = (None, st1)
                       \<and> add' parses st1 s
                           = ((if enabled s \<and> \<not> parses (cron s) then Some CronError else None), st')))
               \<and> (\<forall>h. map_of (cronJobs st) (sid s) = Some h \<longrightarrow>
                    \<not> running (heap st' ! h) \<and> map_of (cronJobs st') (sid s) \<noteq> Some h)
               \<and> set (running_for st' (sid s))
                   = (if enabled s \<and> parses (cron s) then {length (heap st)} else {})
               \<and> length (running_for st' (sid s)) \<le> 1
               \<and> (enabled s \<and> parses (cron s) \<longrightarrow>
                    map_of (cronJobs st') (sid s) = Some (length (heap st))
                    \<and> heap st' ! length (heap st) =
                        \<lparr>pattern = cron s, jobId = job s, scheduleId = sid s, running = True\<rparr>)
               \<and> map_of (schedules st') (sid s) = Some s
               \<and> consistent st'))"
proof (intro conjI impI)
  assume "sid s \<notin> fst ` set (schedules st) \<and> sid s \<notin> set Object_prototype"
  with ne show "update parses st s
      = (Some (NoSuchSchedule (''No schedule found for ID '' @ sid s)), st)"
    by (intro update_absent) (simp_all add: has_property_def)
next
  assume "consistent st \<and> sid s \<in> fst ` set (schedules st)"
  then have c: "consistent st" and present: "sid s \<in> fst ` set (schedules st)" by simp_all
  from update_present [OF c ne present] obtain st1 where
    dis: "if map_of (scheduleTable st) (sid s) = Some True
          then disable' st (ArgSchedule s) = (None, st1) else st1 = st"
    and u: "update parses st s = add' parses st1 s"
    and c1: "consistent st1"
    and none1: "map_of (cronJobs st1) (sid s) = None"
    and off1: "map_of (scheduleTable st1) (sid s) \<noteq> Some True"
    and len1: "length (heap st1) = length (heap st)"
    and old: "\<forall>h. map_of (cronJobs st) (sid s) = Some h \<longrightarrow>
                  h < length (heap st) \<and> \<not> running (heap st1 ! h)"
    by blast
  define st' where "st' = snd (add' parses st1 s)"
  define on where "on = (enabled s \<and> parses (cron s))"
  define err where "err = (if enabled s \<and> \<not> parses (cron s) then Some CronError else None)"
  from ne have a: "add' parses st1 s = (err, st')"
    unfolding st'_def err_def by (simp add: add'_result)
  from c1 ne off1 have c': "consistent st'"
    unfolding st'_def by (rule add'_consistent)
  have hp: "heap st' =
           (if on
            then heap st1 @ [\<lparr>pattern = cron s, jobId = job s, scheduleId = sid s, running = True\<rparr>]
            else heap st1)"
    unfolding st'_def on_def using ne by (rule add'_fields)
  have cj: "map_of (cronJobs st') (sid s) = (if on then Some (length (heap st)) else None)"
    unfolding st'_def on_def using ne none1 len1 by (simp add: add'_fields)
  have sch: "map_of (schedules st') (sid s) = Some s"
    unfolding st'_def using ne by (rule add'_fields)
  from c' have stale: "no_stale_timer st'" by (simp add: consistent_def)
  have rs: "set (running_for st' (sid s)) = (if on then {length (heap st)} else {})"
  proof (cases on)
    case True
    have uniq: "\<And>h. h < length (heap st') \<Longrightarrow> running (heap st' ! h) \<Longrightarrow>
             scheduleId (heap st' ! h) = sid s \<Longrightarrow> h = length (heap st)"
    proof -
      fix h
      assume "h < length (heap st')" "running (heap st' ! h)" "scheduleId (heap st' ! h) = sid s"
      with stale have "map_of (cronJobs st') (scheduleId (heap st' ! h)) = Some h"
        unfolding no_stale_timer_iff by blast
      with \<open>scheduleId (heap st' ! h) = sid s\<close> have "map_of (cronJobs st') (sid s) = Some h"
        by simp
      with cj True show "h = length (heap st)" by simp
    qed
    from True hp len1 have new: "length (heap st) < length (heap st')"
      "running (heap st' ! length (heap st))" "scheduleId (heap st' ! length (heap st)) = sid s"
      by (simp_all add: nth_append)
    have "set (running_for st' (sid s)) = {length (heap st)}"
    proof (intro equalityI subsetI)
      fix h assume "h \<in> set (running_for st' (sid s))"
      then have "h < length (heap st')" "running (heap st' ! h)" "scheduleId (heap st' ! h) = sid s"
        by (simp_all add: running_for_set)
      then have "h = length (heap st)" by (rule uniq)
      then show "h \<in> {length (heap st)}" by simp
    next
      fix h assume "h \<in> {length (heap st)}"
      with new show "h \<in> set (running_for st' (sid s))" by (simp add: running_for_set)
    qed
    with True show ?thesis by simp
  next
    case False
    have none: "\<And>h. h < length (heap st') \<Longrightarrow> running (heap st' ! h) \<Longrightarrow>
             scheduleId (heap st' ! h) = sid s \<Longrightarrow> False"
    proof -
      fix h
      assume "h < length (heap st')" "running (heap st' ! h)" "scheduleId (heap st' ! h) = sid s"
      with stale have "map_of (cronJobs st') (scheduleId (heap st' ! h)) = Some h"
        unfolding no_stale_timer_iff by blast
      with \<open>scheduleId (heap st' ! h) = sid s\<close> have "map_of (cronJobs st') (sid s) = Some h"
        by simp
      with cj False show False by simp
    qed
    have "set (running_for st' (sid s)) = {}"
    proof (rule equals0I)
      fix h assume "h \<in> set (running_for st' (sid s))"
      then have "h < length (heap st')" "running (heap st' ! h)" "scheduleId (heap st' ! h) = sid s"
        by (simp_all add: running_for_set)
      then show False by (rule none)
    qed
    with False show ?thesis by simp
  qed
  have one: "length (running_for st' (sid s)) \<le> 1"
    using no_stale_one_timer [OF stale] by simp
  have oldh: "\<forall>h. map_of (cronJobs st) (sid s) = Some h \<longrightarrow>
                    \<not> running (heap st' ! h) \<and> map_of (cronJobs st') (sid s) \<noteq> Some h"
  proof (intro allI impI)
    fix h assume "map_of (cronJobs st) (sid s) = Some h"
    with old have "h < length (heap st)" "\<not> running (heap st1 ! h)" by simp_all
    with hp len1 cj show "\<not> running (heap st' ! h) \<and> map_of (cronJobs st') (sid s) \<noteq> Some h"
      by (simp add: nth_append)
  qed
  have first: "map_of (scheduleTable st) (sid s) = Some True \<longrightarrow>
         (\<exists>st1. disable' st (ArgSchedule s) = (None, st1) \<and> add' parses st1 s = (err, st'))"
  proof
    assume "map_of (scheduleTable st) (sid s) = Some True"
    with dis have "disable' st (ArgSchedule s) = (None, st1)" by simp
    with a show "\<exists>st1. disable' st (ArgSchedule s) = (None, st1) \<and> add' parses st1 s = (err, st')"
      by blast
  qed
  have new: "on \<longrightarrow>
        map_of (cronJobs st') (sid s) = Some (length (heap st))
        \<and> heap st' ! length (heap st) =
            \<lparr>pattern = cron s, jobId = job s, scheduleId = sid s, running = True\<rparr>"
    using cj hp len1 by (simp add: nth_append)
  from u a have upd: "update parses st s = (err, st')" by simp
  have "update parses st s = (err, st')
               \<and> (map_of (scheduleTable st) (sid s) = Some True \<longrightarrow>
                    (\<exists>st1. disable' st (ArgSchedule s) = (None, st1)
                       \<and> add' parses st1 s = (err, st')))
               \<and> (\<forall>h. map_of (cronJobs st) (sid s) = Some h \<longrightarrow>
                    \<not> running (heap st' ! h) \<and> map_of (cronJobs st') (sid s) \<noteq> Some h)
               \<and> set (running_for st' (sid s)) = (if on then {length (heap st)} else {})
               \<and> length (running_for st' (sid s)) \<le> 1
               \<and> (on \<longrightarrow>
                    map_of (cronJobs st') (sid s) = Some (length (heap st))
                    \<and> heap st' ! length (heap st) =
                        \<lparr>pattern = cron s, jobId = job s, scheduleId = sid s, running = True\<rparr>)
               \<and> map_of (schedules st') (sid s) = Some s
               \<and> consistent st'"
    by (intro conjI; fact)
  then show "\<exists>st'. update parses st s
                   = ((if enabled s \<and> \<not> parses (cron s) then Some CronError else None), st')
               \<and> (map_of (scheduleTable st) (sid s) = Some True \<longrightarrow>
                    (\<exists>st1. disable' st (ArgSchedule s) = (None, st1)
                       \<and> add' parses st1 s
                           = ((if enabled s \<and> \<not> parses (cron s) then Some CronError else None), st')))
               \<and> (\<forall>h. map_of (cronJobs st) (sid s) = Some h \<longrightarrow>
                    \<not> running (heap st' ! h) \<and> map_of (cronJobs st') (sid s) \<noteq> Some h)
               \<and> set (running_for st' (sid s))
                   = (if enabled s \<and> parses (cron s) then {length (heap st)} else {})
               \<and> length (running_for st' (sid s)) \<le> 1
               \<and> (enabled s \<and> parses (cron s) \<longrightarrow>
                    map_of (cronJobs st') (sid s) = Some (length (heap st))
                    \<and> heap st' ! length (heap st) =
                        \<lparr>pattern = cron s, jobId = job s, scheduleId = sid s, running = True\<rparr>)
               \<and> map_of (schedules st') (sid s) = Some s
               \<and> consistent st'"
    unfolding on_def err_def by (rule exI [where x = st'])
qed

theorem update_replaces_timer_witness:
  "sid sched1' \<noteq> [] \<and> consistent one_enabled
   \<and> sid sched1' \<in> fst ` set (schedules one_enabled)
   \<and> update five_or_six_fields one_enabled sched1' = (None, one_updated)
   \<and> map_of (cronJobs one_enabled) ''s1'' = Some 0
   \<and> \<not> running (heap one_updated ! 0)
   \<and> running_for one_updated ''s1'' = [1]
   \<and> heap one_updated ! 1 = timer1'
   \<and> fst (update five_or_six_fields one_enabled sched_bad) = Some CronError
   \<and> running_for (snd (update five_or_six_fields one_enabled sched_bad)) ''s1'' = []
   \<and> update five_or_six_fields empty_scheduler sched1' =
        (Some (NoSuchSchedule ''No schedule found for ID s1''), empty_scheduler)"
proof -
  have ne: "sid sched1' \<noteq> []" by code_simp
  have ne': "sid sched_bad \<noteq> []" by code_simp
  have c: "consistent one_enabled \<and> sid sched1' \<in> fst ` set (schedules one_enabled)"
    by code_simp
  have c': "consistent one_enabled \<and> sid sched_bad \<in> fst ` set (schedules one_enabled)"
    by code_simp
  have p: "enabled sched1' \<and> five_or_six_fields (cron sched1')" by code_simp
  have p': "enabled sched_bad \<and> \<not> five_or_six_fields (cron sched_bad)" by code_simp
  have a: "sid sched1' \<notin> fst ` set (schedules empty_scheduler)
             \<and> sid sched1' \<notin> set Object_prototype" by code_simp
  from update_replaces_timer [OF ne, of one_enabled five_or_six_fields] c p
  obtain st' where "update five_or_six_fields one_enabled sched1' = (None, st')"
    "consistent st'" by auto
  moreover have "update five_or_six_fields one_enabled sched1' = (None, one_updated)"
    by code_simp
  moreover from update_replaces_timer [OF ne', of one_enabled five_or_six_fields] c' p'
  obtain st'' where "update five_or_six_fields one_enabled sched_bad = (Some CronError, st'')"
    "set (running_for st'' (sid sched_bad)) = {}" by auto
  moreover have "sid sched_bad = ''s1''" by code_simp
  moreover from update_replaces_timer [OF ne, of empty_scheduler five_or_six_fields] a
  have "update five_or_six_fields empty_scheduler sched1' =
          (Some (NoSuchSchedule (''No schedule found for ID '' @ sid sched1')), empty_scheduler)"
    by blast
  moreover have "''No schedule found for ID '' @ sid sched1' = ''No schedule found for ID s1''"
    by code_simp
  moreover have "map_of (cronJobs one_enabled) ''s1'' = Some 0
   \<and> \<not> running (heap one_updated ! 0)
   \<and> running_for one_updated ''s1'' = [1]
   \<and> heap one_updated ! 1 = timer1'" by code_simp
  ultimately show ?thesis using ne c by simp
qed

text \<open>
  C2. From a consistent state (both tables hold the same ids, a handle is stored exactly
  for the enabled entries, every stored handle is a running timer of its id and every
  running timer is the stored one) a handle is stored for an id exactly when its entry is
  marked enabled and at most one timer runs per id; and \<open>add\<close> and \<open>update\<close> (of a
  schedule with a non-empty id), \<open>remove\<close> of an id, \<open>_disable\<close> and \<open>disableAll\<close> lead,
  whether they return or throw, to a consistent state again. \<open>_enable\<close> does so for a
  schedule that is in the table and not enabled, which is how \<open>_add\<close> calls it. This
  holds whichever patterns the \<open>CronJob\<close> constructor accepts.
\<close>

theorem operations_keep_consistency:
  assumes "consistent st"
  shows "timer_invariant st
       \<and> (sid s \<noteq> [] \<longrightarrow> consistent (snd (add parses st s)))
       \<and> consistent (snd (remove st (ArgId k)))
       \<and> (sid s \<noteq> [] \<longrightarrow> consistent (snd (update parses st s)))
       \<and> (sid s \<in> fst ` set (schedules st) \<and> map_of (scheduleTable st) (sid s) \<noteq> Some True \<longrightarrow>
            consistent (snd (enable' parses st s)))
       \<and> consistent (snd (disable' st x))
       \<and> consistent (snd (disableAll st))"
  using assms
  by (simp add: consistent_timer_invariant add_consistent remove_consistent update_consistent
      enable'_consistent disable'_consistent disableAll_consistent)

theorem operations_keep_consistency_witness:
  "consistent empty_scheduler \<and> consistent one_disabled \<and> timer_invariant one_disabled
   \<and> sid sched1 \<noteq> [] \<and> sid sched1 \<in> fst ` set (schedules one_disabled)
   \<and> map_of (scheduleTable one_disabled) (sid sched1) \<noteq> Some True
   \<and> consistent (snd (add five_or_six_fields one_disabled sched1))
   \<and> consistent (snd (remove one_disabled (ArgId ''s1'')))
   \<and> consistent (snd (update five_or_six_fields one_disabled sched1))
   \<and> consistent (snd (enable' five_or_six_fields one_disabled sched1))
   \<and> consistent (snd (disable' one_disabled (ArgId ''s1'')))
   \<and> consistent (snd (disableAll one_disabled))"
proof -
  have e: "consistent empty_scheduler" by (rule empty_consistent)
  have c: "consistent one_disabled" by code_simp
  have h: "sid sched1 \<noteq> [] \<and> sid sched1 \<in> fst ` set (schedules one_disabled)
   \<and> map_of (scheduleTable one_disabled) (sid sched1) \<noteq> Some True" by code_simp
  from operations_keep_consistency
    [OF c, of sched1 five_or_six_fields "''s1''" "ArgId ''s1''"] h e c
  show ?thesis by simp
qed

text \<open>
  \<open>_enable\<close> on its own does not keep the invariant of C2: called for a schedule that is
  not in the table and followed by \<open>remove\<close>, it leaves a stored handle without an
  entry; called twice, it leaves two running timers for one id.
\<close>

theorem enable'_alone_breaks_timer_invariant:
  "timer_invariant empty_scheduler
   \<and> fst (enable' five_or_six_fields empty_scheduler sched1) = None
   \<and> timer_invariant (snd (enable' five_or_six_fields empty_scheduler sched1))
   \<and> \<not> timer_invariant
         (snd (remove (snd (enable' five_or_six_fields empty_scheduler sched1)) (ArgId ''s1'')))
   \<and> \<not> timer_invariant
         (snd (enable' five_or_six_fields
                 (snd (enable' five_or_six_fields empty_scheduler sched1)) sched1))"
  by code_simp

text \<open>
  \<open>remove\<close> never throws, whatever \<open>_disable\<close> threw, and the key it was given is in
  neither table afterwards.
\<close>

lemma remove_purges_entries:
  "property_key x \<notin> fst ` set (schedules (snd (remove st x)))
   \<and> property_key x \<notin> fst ` set (scheduleTable (snd (remove st x)))"
  by (simp add: remove_state delete_notin_dom)

text \<open>
  C1. \<open>_disable\<close> throws a \<open>TypeError\<close>, which is not a \<open>SchedulerError\<close>, when it is
  given \<open>undefined\<close> and when an entry is marked enabled with no handle stored; \<open>remove\<close>
  returns normally in both cases, after purging the tables.
\<close>

theorem remove_swallows_TypeError:
  "disable' empty_scheduler ArgUndefined = (Some TypeError, empty_scheduler)
   \<and> \<not> is_SchedulerError TypeError
   \<and> remove empty_scheduler ArgUndefined = (None, empty_scheduler)
   \<and> disable' handle_missing (ArgId ''s1'') = (Some TypeError, handle_missing)
   \<and> remove handle_missing (ArgId ''s1'') = (None, empty_scheduler)"
  by code_simp

section \<open>The dispatcher: promises and fuel\<close>

declare checkAuthorization.simps(2) [simp del]

lemma any_of_True_iff: "any_of vs = Some True \<longleftrightarrow> Some True \<in> set vs"
  by (simp add: any_of_def)

lemma any_of_False_iff: "any_of vs = Some False \<longleftrightarrow> (\<forall>v \<in> set vs. v = Some False)"
proof
  assume a: "any_of vs = Some False"
  show "\<forall>v \<in> set vs. v = Some False"
  proof
    fix v assume v: "v \<in> set vs"
    show "v = Some False"
    proof (cases v)
      case None
      with v a show ?thesis by (simp add: any_of_def split: if_splits)
    next
      case (Some b)
      with v a show ?thesis by (cases b) (simp_all add: any_of_def split: if_splits)
    qed
  qed
next
  assume "\<forall>v \<in> set vs. v = Some False"
  then have "Some True \<notin> set vs" "None \<notin> set vs" by auto
  then show "any_of vs = Some False" by (simp add: any_of_def)
qed

lemma all_of_True_iff: "all_of vs = Some True \<longleftrightarrow> (\<forall>v \<in> set vs. v = Some True)"
proof
  assume a: "all_of vs = Some True"
  show "\<forall>v \<in> set vs. v = Some True"
  proof
    fix v assume v: "v \<in> set vs"
    show "v = Some True"
    proof (cases v)
      case None
      with v a show ?thesis by (simp add: all_of_def split: if_splits)
    next
      case (Some b)
      with v a show ?thesis by (cases b) (simp_all add: all_of_def split: if_splits)
    qed
  qed
next
  assume "\<forall>v \<in> set vs. v = Some True"
  then have "Some False \<notin> set vs" "None \<notin> set vs" by auto
  then show "all_of vs = Some True" by (simp add: all_of_def)
qed

lemma all_of_False_iff: "all_of vs = Some False \<longleftrightarrow> Some False \<in> set vs"
  by (simp add: all_of_def)

text \<open>A settled promise stays as it is when the checks it waits for are given more fuel.\<close>

lemma any_of_map_mono:
  assumes "any_of (map f xs) = Some r"
    and "\<And>x r. x \<in> set xs \<Longrightarrow> f x = Some r \<Longrightarrow> g x = Some r"
  shows "any_of (map g xs) = Some r"
proof (cases r)
  case True
  with assms(1) obtain x where "x \<in> set xs" "f x = Some True"
    by (auto simp: any_of_True_iff)
  then have "x \<in> set xs" "g x = Some True" by (simp_all add: assms(2))
  then have "Some True \<in> set (map g xs)" by force
  with True show ?thesis by (simp add: any_of_True_iff)
next
  case False
  with assms(1) have "\<forall>x \<in> set xs. f x = Some False"
    by (simp add: any_of_False_iff)
  then have "\<forall>x \<in> set xs. g x = Some False" by (simp add: assms(2))
  with False show ?thesis by (simp add: any_of_False_iff)
qed

lemma checkMemberAuthorization_mono:
  assumes "checkMemberAuthorization m f c obj = Some r"
    and "\<And>x r. f x = Some r \<Longrightarrow> g x = Some r"
  shows "checkMemberAuthorization m g c obj = Some r"
  using assms by (auto simp: checkMemberAuthorization_def split: sum.splits)

lemma check_VIF_mono:
  assumes "check_VIF f c obj = Some r"
    and "\<And>x r. f x = Some r \<Longrightarrow> g x = Some r"
  shows "check_VIF g c obj = Some r"
proof (cases "getObject c (property obj ''$network'') None")
  case (Inl e)
  with assms(1) show ?thesis by (simp add: check_VIF_def)
next
  case (Inr network)
  show ?thesis
  proof (cases "getObject c (property obj ''$VM'') None")
    case (Inl e)
    with Inr assms(1) show ?thesis by (simp add: check_VIF_def)
  next
    case vm: (Inr vm)
    from assms(1) Inr vm have "any_of (map f [network, vm]) = Some r"
      by (simp add: check_VIF_def)
    then have "any_of (map g [network, vm]) = Some r"
      by (rule any_of_map_mono) (rule assms(2))
    with Inr vm show ?thesis by (simp add: check_VIF_def)
  qed
qed

lemma check_VDI_mono:
  assumes "check_VDI f c obj = Some r"
    and "\<And>x r. f x = Some r \<Longrightarrow> g x = Some r"
  shows "check_VDI g c obj = Some r"
proof (cases "getObjects c (VBDs obj) ''VBD''")
  case (Inl e)
  with assms(1) show ?thesis by (simp add: check_VDI_def)
next
  case (Inr vbds)
  define look where "look = (\<lambda>vbd. getObject c (property vbd ''VM'') (Some [''VM'']))"
  define pf where "pf = map (\<lambda>vbd. case look vbd of Inl e \<Rightarrow> Inl e | Inr vm \<Rightarrow> Inr (f vm)) vbds"
  define pg where "pg = map (\<lambda>vbd. case look vbd of Inl e \<Rightarrow> (Inl e :: api_error + bool option) | Inr vm \<Rightarrow> Inr (g vm)) vbds"
  have isl: "list_ex isl pf = list_ex isl pg"
    by (auto simp: pf_def pg_def list_ex_iff split: sum.splits)
  have f: "check_VDI f c obj =
     (if list_ex isl pf then Some False
      else case getObject c (property obj ''$SR'') (Some [''SR'']) of
             Inl e \<Rightarrow> Some False
           | Inr sr \<Rightarrow> any_of (map projr pf @ [f sr]))"
    unfolding check_VDI_def pf_def look_def Let_def using Inr by simp
  have g: "check_VDI g c obj =
     (if list_ex isl pg then Some False
      else case getObject c (property obj ''$SR'') (Some [''SR'']) of
             Inl e \<Rightarrow> Some False
           | Inr sr \<Rightarrow> any_of (map projr pg @ [g sr]))"
    unfolding check_VDI_def pg_def look_def Let_def using Inr by simp
  show ?thesis
  proof (cases "list_ex isl pf")
    case True
    with f g isl assms(1) show ?thesis by simp
  next
    case False
    show ?thesis
    proof (cases "getObject c (property obj ''$SR'') (Some [''SR''])")
      case (Inl e)
      with False f g isl assms(1) show ?thesis by simp
    next
      case sr: (Inr sr)
      define vm where "vm = (\<lambda>vbd. projr (look vbd))"
      have all: "look vbd = Inr (vm vbd)" if "vbd \<in> set vbds" for vbd
      proof (cases "look vbd")
        case (Inl e)
        with that have "list_ex isl pf"
          unfolding pf_def list_ex_iff by force
        with False show ?thesis by simp
      next
        case (Inr x)
        then show ?thesis by (simp add: vm_def)
      qed
      have pf': "map projr pf = map (\<lambda>vbd. f (vm vbd)) vbds"
        unfolding pf_def by (simp add: all)
      have pg': "map projr pg = map (\<lambda>vbd. g (vm vbd)) vbds"
        unfolding pg_def by (simp add: all)
      define items where "items = map (\<lambda>vbd. vm vbd) vbds @ [sr]"
      from f False sr assms(1) pf' have "any_of (map f items) = Some r"
        by (simp add: items_def comp_def)
      then have "any_of (map g items) = Some r"
        by (rule any_of_map_mono) (rule assms(2))
      with g False isl sr pg' show ?thesis
        by (simp add: items_def comp_def)
    qed
  qed
qed

lemma checkAuthorizationByTypes_cases:
  assumes "checkAuthorizationByTypes ty = Some fn"
  shows "fn = (\<lambda>check c. authorized) \<or> (\<exists>m. fn = checkMemberAuthorization m)
           \<or> fn = check_VDI \<or> fn = check_VIF
           \<or> fn = (\<lambda>check c. inherited_throws) \<or> fn = (\<lambda>check c. inherited_resolves)"
proof -
  from assms have "Some fn \<in> {Some (\<lambda>check c. authorized),
      Some (\<lambda>check c. inherited_throws), Some (\<lambda>check c. inherited_resolves),
      Some (checkMemberAuthorization ''$object''), Some (checkMemberAuthorization ''$host''),
      Some (checkMemberAuthorization ''VDI''), Some check_VDI, Some check_VIF,
      Some (checkMemberAuthorization ''$snapshot_of'')}"
    unfolding checkAuthorizationByTypes_def
    by (simp only: split: if_splits) (simp_all only: insert_iff simp_thms option.simps)
  then show ?thesis by blast
qed

lemma checkAuthorization_Suc:
  "checkAuthorization n c userId obj perm = Some r \<Longrightarrow>
     checkAuthorization (Suc n) c userId obj perm = Some r"
proof (induction n arbitrary: obj r)
  case 0
  then show ?case by simp
next
  case (Suc n)
  define f where "f = (\<lambda>obj. checkAuthorization n c userId obj perm)"
  define g where "g = (\<lambda>obj. checkAuthorization (Suc n) c userId obj perm)"
  have fg: "\<And>x r. f x = Some r \<Longrightarrow> g x = Some r"
    unfolding f_def g_def by (rule Suc.IH)
  have F: "checkAuthorization (Suc n) c userId obj perm =
     (case checkAuthorizationByTypes (otype obj) of
        Some fn \<Rightarrow> fn f c obj
      | None \<Rightarrow> defaultCheckAuthorization c userId obj perm)"
    unfolding f_def by (rule checkAuthorization.simps(2))
  have G: "checkAuthorization (Suc (Suc n)) c userId obj perm =
     (case checkAuthorizationByTypes (otype obj) of
        Some fn \<Rightarrow> fn g c obj
      | None \<Rightarrow> defaultCheckAuthorization c userId obj perm)"
    unfolding g_def by (rule checkAuthorization.simps(2))
  show ?case
  proof (cases "checkAuthorizationByTypes (otype obj)")
    case None
    with Suc.prems F G show ?thesis by simp
  next
    case (Some fn)
    from Suc.prems F Some have a: "fn f c obj = Some r" by simp
    from Some have "fn = (\<lambda>check c. authorized) \<or> (\<exists>m. fn = checkMemberAuthorization m)
           \<or> fn = check_VDI \<or> fn = check_VIF
           \<or> fn = (\<lambda>check c. inherited_throws) \<or> fn = (\<lambda>check c. inherited_resolves)"
      by (rule checkAuthorizationByTypes_cases)
    then consider
        "fn = (\<lambda>check c. authorized)"
      | m where "fn = checkMemberAuthorization m"
      | "fn = check_VDI" | "fn = check_VIF"
      | "fn = (\<lambda>check c. inherited_throws)" | "fn = (\<lambda>check c. inherited_resolves)"
      by blast
    then have "fn g c obj = Some r"
    proof cases
      case 1
      with a show ?thesis by simp
    next
      case 2
      from a fg show ?thesis unfolding 2 by (rule checkMemberAuthorization_mono)
    next
      case 3
      from a fg show ?thesis unfolding 3 by (rule check_VDI_mono)
    next
      case 4
      from a fg show ?thesis unfolding 4 by (rule check_VIF_mono)
    next
      case 5
      with a show ?thesis by simp
    next
      case 6
      with a show ?thesis by simp
    qed
    with G Some show ?thesis by simp
  qed
qed

lemma checkAuthorization_mono:
  "checkAuthorization n c userId obj perm = Some r \<Longrightarrow> n \<le> m \<Longrightarrow>
     checkAuthorization m c userId obj perm = Some r"
proof (induction m)
  case 0
  then show ?case by simp
next
  case (Suc m)
  show ?case
  proof (cases "n \<le> m")
    case True
    with Suc have "checkAuthorization m c userId obj perm = Some r" by simp
    then show ?thesis by (rule checkAuthorization_Suc)
  next
    case False
    with Suc.prems have "n = Suc m" by simp
    with Suc.prems show ?thesis by simp
  qed
qed

section \<open>The dispatcher: the stages of a call\<close>

text \<open>
  C3. The permission check passes, whoever calls, when the method declares no permission;
  when it declares a falsy permission (login only) it passes if and only if the context
  has a user; when it declares a permission name it passes if and only if the context
  has a user and \<open>user.hasPermission\<close> holds for that name. Every failure is
  \<open>Unauthorized\<close>.
\<close>

theorem checkPermission_cases:
  "(permission m = PUndefined \<longrightarrow> checkPermission usr m = None)
   \<and> (permission m \<noteq> PUndefined \<and> falsy (permission m) \<longrightarrow>
        checkPermission usr m = (if usr = None then Some Unauthorized else None))
   \<and> (permission m = PString p \<and> p \<noteq> [] \<longrightarrow>
        checkPermission usr m =
          (if \<exists>u. usr = Some u \<and> hasPermission u p then None else Some Unauthorized))"
  by (cases usr) (auto simp: checkPermission_def split: permission_decl.splits)

theorem checkPermission_cases_witness:
  "permission vif_delete = PUndefined \<and> checkPermission None vif_delete = None
   \<and> permission login_only \<noteq> PUndefined \<and> falsy (permission login_only)
   \<and> checkPermission None login_only = Some Unauthorized
   \<and> checkPermission (Some \<lparr>user_id = ''u1'', user_permission = ''none''\<rparr>) login_only = None
   \<and> permission user_create = PString ''admin''
   \<and> hasPermission \<lparr>user_id = ''u0'', user_permission = ''admin''\<rparr> ''admin''
   \<and> checkPermission (Some \<lparr>user_id = ''u0'', user_permission = ''admin''\<rparr>) user_create = None
   \<and> \<not> hasPermission \<lparr>user_id = ''u1'', user_permission = ''none''\<rparr> ''admin''
   \<and> checkPermission (Some \<lparr>user_id = ''u1'', user_permission = ''none''\<rparr>) user_create
        = Some Unauthorized
   \<and> checkPermission None user_create = Some Unauthorized"
proof -
  let ?u0 = "\<lparr>user_id = ''u0'', user_permission = ''admin''\<rparr>"
  let ?u1 = "\<lparr>user_id = ''u1'', user_permission = ''none''\<rparr>"
  have a: "permission vif_delete = PUndefined" by code_simp
  have b: "permission login_only \<noteq> PUndefined \<and> falsy (permission login_only)" by code_simp
  have c: "permission user_create = PString ''admin'' \<and> ''admin'' \<noteq> []" by code_simp
  have h0: "hasPermission ?u0 ''admin''" by code_simp
  have h1: "\<not> hasPermission ?u1 ''admin''" by code_simp
  from checkPermission_cases [where m = vif_delete and usr = None] a
  have 1: "checkPermission None vif_delete = None" by simp
  from checkPermission_cases [where m = login_only and usr = None] b
  have 2: "checkPermission None login_only = Some Unauthorized" by simp
  from checkPermission_cases [where m = login_only and usr = "Some ?u1"] b
  have 3: "checkPermission (Some ?u1) login_only = None" by simp
  from checkPermission_cases [where m = user_create and p = "''admin''" and usr = "Some ?u0"] c h0
  have 4: "checkPermission (Some ?u0) user_create = None" by simp
  from checkPermission_cases [where m = user_create and p = "''admin''" and usr = "Some ?u1"] c h1
  have 5: "checkPermission (Some ?u1) user_create = Some Unauthorized" by simp
  from checkPermission_cases [where m = user_create and p = "''admin''" and usr = None] c
  have 6: "checkPermission None user_create = Some Unauthorized" by simp
  from a b c h0 h1 1 2 3 4 5 6 show ?thesis by simp
qed

text \<open>
  C9. For a method that declares a resolve spec, parameter resolution without a user in
  the context fails with \<open>Unauthorized\<close>, whatever the object accessors and the permission
  store would answer and with no fuel for any check; so does the whole call when the
  method declares no permission and the params are valid.
\<close>

theorem resolveParams_without_user:
  assumes "resolve m = Some es"
  shows "resolveParams n c None m ps = Some (Inl Unauthorized)
       \<and> (methods name = Some m \<and> context_user c session_user_id = Inr None
            \<and> permission m = PUndefined \<and> checkParams m ps = None \<longrightarrow>
            call n methods c session_user_id name ps = failed Unauthorized)"
  using assms by (simp add: resolveParams_def call_def checkPermission_def)

theorem resolveParams_without_user_witness:
  "resolve vif_delete = Some [(''vif'', \<lparr>r_param = ''id'', r_types = Some [''VIF''],
                                r_permission = Some ''administrate''\<rparr>)]
   \<and> example_methods ''vif.delete'' = Some vif_delete
   \<and> context_user example_ctx None = Inr None
   \<and> permission vif_delete = PUndefined
   \<and> checkParams vif_delete [(''id'', Str ''vif1'')] = None
   \<and> resolveParams 0 example_ctx None vif_delete [(''id'', Str ''vif1'')] = Some (Inl Unauthorized)
   \<and> call 0 example_methods example_ctx None ''vif.delete'' [(''id'', Str ''vif1'')]
        = failed Unauthorized"
proof -
  have r: "resolve vif_delete = Some [(''vif'', \<lparr>r_param = ''id'', r_types = Some [''VIF''],
                                r_permission = Some ''administrate''\<rparr>)]" by code_simp
  have m: "example_methods ''vif.delete'' = Some vif_delete"
    by (simp add: example_methods_def)
  have h: "context_user example_ctx None = Inr None
   \<and> permission vif_delete = PUndefined
   \<and> checkParams vif_delete [(''id'', Str ''vif1'')] = None" by code_simp
  from resolveParams_without_user [OF r, where n = 0 and c = example_ctx
      and ps = "[(''id'', Str ''vif1'')]" and methods = example_methods
      and name = "''vif.delete''" and session_user_id = None] r m h
  show ?thesis by simp
qed

lemma resolve_loop_append:
  "resolve_loop n c userId isAdmin (es1 @ es2) ps promises =
     (case resolve_loop n c userId isAdmin es1 ps promises of
        (Some err, ps1, promises1) \<Rightarrow> (Some err, ps1, promises1)
      | (None, ps1, promises1) \<Rightarrow> resolve_loop n c userId isAdmin es2 ps1 promises1)"
proof (induction es1 arbitrary: ps promises)
  case Nil
  show ?case by simp
next
  case (Cons a es1)
  obtain key e where a: "a = (key, e)" by (cases a)
  show ?case
  proof (cases "pget ps (r_param e) = Undefined")
    case True
    with a Cons.IH show ?thesis by simp
  next
    case False
    show ?thesis
    proof (cases "getObject c (pget ps (r_param e)) (r_types e)")
      case (Inl err)
      with a False show ?thesis by simp
    next
      case (Inr object)
      with a False Cons.IH show ?thesis by simp
    qed
  qed
qed

lemma resolve_loop_keeps_undefined:
  assumes "resolve_loop n c userId isAdmin es ps promises = (err, ps', promises')"
    and "pget ps k = Undefined" and "k \<notin> fst ` set es"
  shows "pget ps' k = Undefined"
  using assms
proof (induction es arbitrary: ps promises)
  case Nil
  then show ?case by simp
next
  case (Cons a es)
  obtain key e where a: "a = (key, e)" by (cases a)
  from Cons.prems(3) a have k: "k \<noteq> key" and rest: "k \<notin> fst ` set es" by auto
  show ?case
  proof (cases "pget ps (r_param e) = Undefined")
    case True
    with a Cons.prems(1) have "resolve_loop n c userId isAdmin es ps promises = (err, ps', promises')"
      by simp
    from this Cons.prems(2) rest show ?thesis by (rule Cons.IH)
  next
    case False
    show ?thesis
    proof (cases "getObject c (pget ps (r_param e)) (r_types e)")
      case (Inl x)
      with a False Cons.prems(1) have "ps' = ps" by simp
      with Cons.prems(2) show ?thesis by simp
    next
      case (Inr object)
      define ps2 where "ps2 = AList.update key (Obj object) (AList.delete (r_param e) ps)"
      define promises2 where "promises2 =
        (if \<not> isAdmin then promises @ [checkAuthorization n c userId object (entry_permission e)]
         else promises)"
      from a False Inr Cons.prems(1)
      have l: "resolve_loop n c userId isAdmin es ps2 promises2 = (err, ps', promises')"
        by (simp add: ps2_def promises2_def)
      from False Cons.prems(2) have "k \<noteq> r_param e" by auto
      with k Cons.prems(2) have "pget ps2 k = Undefined"
        by (simp add: ps2_def pget_def update_conv' delete_conv')
      with l show ?thesis using rest by (rule Cons.IH)
    qed
  qed
qed

text \<open>
  C10 fails when an earlier entry of the spec stores its object under the name of this
  entry's parameter: \<open>host_id\<close> is absent from the call's params, the first entry
  writes the object it resolved under \<open>host_id\<close>, and the second entry, finding a
  value there, looks it up, which ends the call with \<open>NoSuchObject\<close>; without the second
  entry the same call resolves.
\<close>

theorem earlier_entry_supplies_parameter:
  "pget [(''id'', Str ''vm1'')] (r_param (snd host_entry)) = Undefined
   \<and> resolve_loop 3 example_ctx ''u2'' False [clash_entry] [(''id'', Str ''vm1'')] []
       = (None, [(''host_id'', Obj vm1)], [Some True])
   \<and> pget [(''host_id'', Obj vm1)] (r_param (snd host_entry)) = Obj vm1
   \<and> resolve_loop 3 example_ctx ''u2'' False [clash_entry, host_entry] [(''id'', Str ''vm1'')] []
       = (Some NoSuchObject, [(''host_id'', Obj vm1)], [Some True])
   \<and> resolveParams 3 example_ctx (Some \<lparr>user_id = ''u2'', user_permission = ''none''\<rparr>)
        (two_entries\<lparr>resolve := Some [clash_entry, host_entry]\<rparr>) [(''id'', Str ''vm1'')]
       = Some (Inl NoSuchObject)
   \<and> resolveParams 3 example_ctx (Some \<lparr>user_id = ''u2'', user_permission = ''none''\<rparr>)
        (two_entries\<lparr>resolve := Some [clash_entry]\<rparr>) [(''id'', Str ''vm1'')]
       = Some (Inr [(''host_id'', Obj vm1)])"
  by code_simp

text \<open>
  C10. An entry whose raw-id parameter is \<open>undefined\<close> in the params when the loop of
  \<open>resolveParams\<close> reaches it changes nothing: the params and the promises are as they
  were, no accessor is called, and the loop and \<open>resolveParams\<close> give what they give
  for the resolve spec without that entry. The parameter is \<open>undefined\<close> at that point
  in particular when it is \<open>undefined\<close> in the call's params (it is no property of
  them, own or inherited) and no earlier entry of the spec is keyed by its name.
\<close>

theorem absent_parameter_entry_skipped:
  assumes "resolve_loop n c userId isAdmin es1 ps promises = (err, ps1, promises1)"
    and "pget ps1 (r_param e) = Undefined
         \<or> (pget ps (r_param e) = Undefined \<and> r_param e \<notin> fst ` set es1)"
  shows "pget ps1 (r_param e) = Undefined
       \<and> resolve_loop n c userId isAdmin (es1 @ [(key, e)]) ps promises = (err, ps1, promises1)
       \<and> resolve_loop n c userId isAdmin (es1 @ (key, e) # es2) ps promises
           = resolve_loop n c userId isAdmin (es1 @ es2) ps promises
       \<and> (userId = user_id u \<and> isAdmin = hasPermission u ''admin'' \<and> promises = []
            \<and> resolve m = Some (es1 @ (key, e) # es2) \<longrightarrow>
            resolveParams n c (Some u) m ps
              = resolveParams n c (Some u) (m\<lparr>resolve := Some (es1 @ es2)\<rparr>) ps)"
proof -
  from assms(2) have 0: "pget ps1 (r_param e) = Undefined"
  proof
    assume "pget ps1 (r_param e) = Undefined"
    then show ?thesis .
  next
    assume "pget ps (r_param e) = Undefined \<and> r_param e \<notin> fst ` set es1"
    then have "pget ps (r_param e) = Undefined" and "r_param e \<notin> fst ` set es1" by simp_all
    with assms(1) show ?thesis by (rule resolve_loop_keeps_undefined)
  qed
  from assms(1) 0 have 1: "resolve_loop n c userId isAdmin (es1 @ [(key, e)]) ps promises
      = (err, ps1, promises1)"
    by (cases err) (simp_all add: resolve_loop_append)
  from assms(1) 0 have 2: "resolve_loop n c userId isAdmin (es1 @ (key, e) # es2) ps promises
           = resolve_loop n c userId isAdmin (es1 @ es2) ps promises"
    by (cases err) (simp_all add: resolve_loop_append)
  have 3: "userId = user_id u \<and> isAdmin = hasPermission u ''admin'' \<and> promises = []
            \<and> resolve m = Some (es1 @ (key, e) # es2) \<longrightarrow>
            resolveParams n c (Some u) m ps
              = resolveParams n c (Some u) (m\<lparr>resolve := Some (es1 @ es2)\<rparr>) ps"
  proof
    assume h: "userId = user_id u \<and> isAdmin = hasPermission u ''admin'' \<and> promises = []
            \<and> resolve m = Some (es1 @ (key, e) # es2)"
    with 2 have "resolve_loop n c (user_id u) (hasPermission u ''admin'') (es1 @ (key, e) # es2) ps []
        = resolve_loop n c (user_id u) (hasPermission u ''admin'') (es1 @ es2) ps []"
      by simp
    with h show "resolveParams n c (Some u) m ps
              = resolveParams n c (Some u) (m\<lparr>resolve := Some (es1 @ es2)\<rparr>) ps"
      by (simp add: resolveParams_def)
  qed
  from 0 1 2 3 show ?thesis by blast
qed

theorem absent_parameter_entry_skipped_witness:
  "resolve_loop 3 example_ctx ''u2'' False [vm_entry] [(''id'', Str ''vm1'')] []
     = (None, [(''vm'', Obj vm1)], [Some True])
   \<and> pget [(''id'', Str ''vm1'')] (r_param (snd host_entry)) = Undefined
   \<and> r_param (snd host_entry) \<notin> fst ` set [vm_entry]
   \<and> pget [(''vm'', Obj vm1)] (r_param (snd host_entry)) = Undefined
   \<and> resolve_loop 3 example_ctx ''u2'' False [vm_entry, host_entry] [(''id'', Str ''vm1'')] []
     = (None, [(''vm'', Obj vm1)], [Some True])
   \<and> resolve two_entries = Some [vm_entry, host_entry]
   \<and> resolveParams 3 example_ctx (Some \<lparr>user_id = ''u2'', user_permission = ''none''\<rparr>)
        two_entries [(''id'', Str ''vm1'')] = Some (Inr [(''vm'', Obj vm1)])"
proof -
  let ?u = "\<lparr>user_id = ''u2'', user_permission = ''none''\<rparr>"
  have a: "resolve_loop 3 example_ctx ''u2'' False [vm_entry] [(''id'', Str ''vm1'')] []
     = (None, [(''vm'', Obj vm1)], [Some True])" by code_simp
  have b: "pget [(''id'', Str ''vm1'')] (r_param (snd host_entry)) = Undefined
             \<and> r_param (snd host_entry) \<notin> fst ` set [vm_entry]" by code_simp
  then have b': "pget [(''vm'', Obj vm1)] (r_param (snd host_entry)) = Undefined
         \<or> (pget [(''id'', Str ''vm1'')] (r_param (snd host_entry)) = Undefined
             \<and> r_param (snd host_entry) \<notin> fst ` set [vm_entry])" by (rule disjI2)
  have h: "host_entry = (fst host_entry, snd host_entry)" by simp
  have u: "''u2'' = user_id ?u \<and> False = hasPermission ?u ''admin''" by code_simp
  have r: "resolve two_entries = Some ([vm_entry] @ (fst host_entry, snd host_entry) # [])"
    by (simp add: two_entries_def)
  have d: "resolveParams 3 example_ctx (Some ?u) (two_entries\<lparr>resolve := Some ([vm_entry] @ [])\<rparr>)
             [(''id'', Str ''vm1'')] = Some (Inr [(''vm'', Obj vm1)])" by code_simp
  from absent_parameter_entry_skipped [OF a b', where key = "fst host_entry" and ?es2.0 = "[]"
      and u = ?u and m = two_entries] u r d
  show ?thesis using a b by (simp add: two_entries_def)
qed

lemma call_with_user:
  assumes "methods name = Some m" and "context_user c session_user_id = Inr usr"
  shows "call n methods c session_user_id name ps =
     (case checkPermission usr m of
        Some e \<Rightarrow> failed e
      | None \<Rightarrow>
          (case checkParams m ps of
             Some e \<Rightarrow> failed e
           | None \<Rightarrow>
               (case resolveParams n c usr m ps of
                  None \<Rightarrow> \<lparr>invoked = None, outcome = None\<rparr>
                | Some (Inl e) \<Rightarrow> failed e
                | Some (Inr ps') \<Rightarrow>
                    \<lparr>invoked = Some ps',
                     outcome = Some (case body m ps' of
                        Inl e \<Rightarrow> Inl e
                      | Inr res \<Rightarrow> Inr (if res = Undefined then Bool True else res))\<rparr>)))"
  using assms by (simp add: call_def)

lemma resolveParams_with_user:
  assumes "resolve m = Some es"
    and "resolve_loop n c (user_id u) (hasPermission u ''admin'') es ps [] = (err, ps', promises)"
  shows "resolveParams n c (Some u) m ps =
     (case err of
        Some e \<Rightarrow> Some (Inl e)
      | None \<Rightarrow>
          (case all_of promises of
             None \<Rightarrow> None
           | Some False \<Rightarrow> Some (Inl Unauthorized)
           | Some True \<Rightarrow> Some (Inr ps')))"
  using assms by (simp add: resolveParams_def split: option.splits)

text \<open>The promises array only grows, and it stays as it is for an administrator.\<close>

lemma resolve_loop_promises_grow:
  "resolve_loop n c userId isAdmin es ps promises = (err, ps', promises') \<Longrightarrow>
     \<exists>more. promises' = promises @ more"
proof (induction es arbitrary: ps promises)
  case Nil
  then show ?case by simp
next
  case (Cons a es)
  obtain key e where a: "a = (key, e)" by (cases a)
  show ?case
  proof (cases "pget ps (r_param e) = Undefined")
    case True
    with a Cons.prems have "resolve_loop n c userId isAdmin es ps promises = (err, ps', promises')"
      by simp
    then show ?thesis by (rule Cons.IH)
  next
    case False
    show ?thesis
    proof (cases "getObject c (pget ps (r_param e)) (r_types e)")
      case (Inl x)
      with a False Cons.prems show ?thesis by simp
    next
      case (Inr object)
      define ps2 where "ps2 = AList.update key (Obj object) (AList.delete (r_param e) ps)"
      define promises2 where "promises2 =
        (if \<not> isAdmin then promises @ [checkAuthorization n c userId object (entry_permission e)]
         else promises)"
      from a False Inr Cons.prems
      have "resolve_loop n c userId isAdmin es ps2 promises2 = (err, ps', promises')"
        by (simp add: ps2_def promises2_def)
      then have "\<exists>more. promises' = promises2 @ more" by (rule Cons.IH)
      then obtain more where "promises' = promises2 @ more" by blast
      then show ?thesis by (simp add: promises2_def split: if_splits)
    qed
  qed
qed

lemma resolve_loop_admin:
  "resolve_loop n c userId True es ps promises = (err, ps', promises') \<Longrightarrow>
     promises' = promises"
proof (induction es arbitrary: ps)
  case Nil
  then show ?case by simp
next
  case (Cons a es)
  obtain key e where a: "a = (key, e)" by (cases a)
  show ?case
  proof (cases "pget ps (r_param e) = Undefined")
    case True
    with a Cons.prems have "resolve_loop n c userId True es ps promises = (err, ps', promises')"
      by simp
    then show ?thesis by (rule Cons.IH)
  next
    case False
    show ?thesis
    proof (cases "getObject c (pget ps (r_param e)) (r_types e)")
      case (Inl x)
      with a False Cons.prems show ?thesis by simp
    next
      case (Inr object)
      with a False Cons.prems
      have "resolve_loop n c userId True es
              (AList.update key (Obj object) (AList.delete (r_param e) ps)) promises
            = (err, ps', promises')"
        by simp
      then show ?thesis by (rule Cons.IH)
    qed
  qed
qed

text \<open>
  An entry the loop reaches, whose parameter is defined and whose object is found, puts
  the object into the params and, for a user who is no administrator, its check into the
  promises; the loop goes on with the entries after it.
\<close>

lemma resolve_loop_visit:
  assumes "resolve_loop n c userId isAdmin es1 ps promises = (None, ps1, promises1)"
    and "pget ps1 (r_param e) \<noteq> Undefined"
    and "getObject c (pget ps1 (r_param e)) (r_types e) = Inr object"
  shows "resolve_loop n c userId isAdmin (es1 @ (key, e) # es2) ps promises =
           resolve_loop n c userId isAdmin es2
             (AList.update key (Obj object) (AList.delete (r_param e) ps1))
             (if \<not> isAdmin
              then promises1 @ [checkAuthorization n c userId object (entry_permission e)]
              else promises1)"
  using assms by (simp add: resolve_loop_append)

lemma visited_check_in_promises:
  assumes "resolve_loop n c userId False es1 ps promises = (None, ps1, promises1)"
    and "pget ps1 (r_param e) \<noteq> Undefined"
    and "getObject c (pget ps1 (r_param e)) (r_types e) = Inr object"
    and "resolve_loop n c userId False (es1 @ (key, e) # es2) ps promises = (err, ps', promises')"
  shows "checkAuthorization n c userId object (entry_permission e) \<in> set promises'"
proof -
  from assms(1-3) have "resolve_loop n c userId False (es1 @ (key, e) # es2) ps promises =
           resolve_loop n c userId False es2
             (AList.update key (Obj object) (AList.delete (r_param e) ps1))
             (promises1 @ [checkAuthorization n c userId object (entry_permission e)])"
    by (simp add: resolve_loop_visit)
  with assms(4) have "resolve_loop n c userId False es2
             (AList.update key (Obj object) (AList.delete (r_param e) ps1))
             (promises1 @ [checkAuthorization n c userId object (entry_permission e)])
           = (err, ps', promises')"
    by simp
  then have "\<exists>more. promises' =
      (promises1 @ [checkAuthorization n c userId object (entry_permission e)]) @ more"
    by (rule resolve_loop_promises_grow)
  then show ?thesis by auto
qed

text \<open>
  C4. For a call whose method declares a resolve spec and whose context has a user, take
  any entry of the spec that the loop of \<open>resolveParams\<close> reaches with its parameter
  defined and whose object is found. When the user is no administrator and the
  authorization check of that entry fails, the method body is not invoked and the call
  fails with the exception that was thrown first: that of the permission stage, else
  that of the schema stage, else that of the object lookup that ended the loop, else
  \<open>Unauthorized\<close>. The method body is invoked only when both stages passed, no lookup
  threw, every promise of a check resolved, among them the check of that entry unless
  the user is an administrator, and then with the resolved params. For an administrator
  no check is made, and the body is invoked whenever the stages passed and no lookup
  threw, with no fuel for any check.
\<close>

theorem failed_check_stops_call:
  assumes m: "methods name = Some m"
    and u: "context_user c session_user_id = Inr (Some u)"
    and r: "resolve m = Some (es1 @ (key, e) # es2)"
    and l1: "resolve_loop n c (user_id u) (hasPermission u ''admin'') es1 ps []
               = (None, ps1, promises1)"
    and v: "pget ps1 (r_param e) \<noteq> Undefined"
    and g: "getObject c (pget ps1 (r_param e)) (r_types e) = Inr object"
  shows "(\<not> hasPermission u ''admin''
            \<and> checkAuthorization n c (user_id u) object (entry_permission e) = Some False \<longrightarrow>
            call n methods c session_user_id name ps =
              failed (case checkPermission (Some u) m of
                        Some x \<Rightarrow> x
                      | None \<Rightarrow>
                          (case checkParams m ps of
                             Some x \<Rightarrow> x
                           | None \<Rightarrow>
                               (case fst (resolve_loop n c (user_id u) (hasPermission u ''admin'')
                                            (es1 @ (key, e) # es2) ps []) of
                                  Some x \<Rightarrow> x
                                | None \<Rightarrow> Unauthorized))))
       \<and> (invoked (call n methods c session_user_id name ps) \<noteq> None \<longrightarrow>
            checkPermission (Some u) m = None \<and> checkParams m ps = None
            \<and> fst (resolve_loop n c (user_id u) (hasPermission u ''admin'')
                     (es1 @ (key, e) # es2) ps []) = None
            \<and> list_all (\<lambda>p. p = Some True)
                 (snd (snd (resolve_loop n c (user_id u) (hasPermission u ''admin'')
                              (es1 @ (key, e) # es2) ps [])))
            \<and> (hasPermission u ''admin''
                 \<or> checkAuthorization n c (user_id u) object (entry_permission e) = Some True)
            \<and> invoked (call n methods c session_user_id name ps)
                = Some (fst (snd (resolve_loop n c (user_id u) (hasPermission u ''admin'')
                                    (es1 @ (key, e) # es2) ps []))))
       \<and> (hasPermission u ''admin'' \<longrightarrow>
            snd (snd (resolve_loop n c (user_id u) (hasPermission u ''admin'')
                        (es1 @ (key, e) # es2) ps [])) = []
            \<and> (checkPermission (Some u) m = None \<and> checkParams m ps = None
                 \<and> fst (resolve_loop n c (user_id u) (hasPermission u ''admin'')
                          (es1 @ (key, e) # es2) ps []) = None \<longrightarrow>
                 invoked (call n methods c session_user_id name ps)
                   = Some (fst (snd (resolve_loop n c (user_id u) (hasPermission u ''admin'')
                                       (es1 @ (key, e) # es2) ps [])))))"
proof -
  define adm where "adm = hasPermission u ''admin''"
  define chk where "chk = checkAuthorization n c (user_id u) object (entry_permission e)"
  define L where "L = resolve_loop n c (user_id u) adm (es1 @ (key, e) # es2) ps []"
  obtain err ps' promises where L: "L = (err, ps', promises)" by (cases L)
  define cl where "cl = call n methods c session_user_id name ps"
  have c: "cl =
     (case checkPermission (Some u) m of
        Some e \<Rightarrow> failed e
      | None \<Rightarrow>
          (case checkParams m ps of
             Some e \<Rightarrow> failed e
           | None \<Rightarrow>
               (case resolveParams n c (Some u) m ps of
                  None \<Rightarrow> \<lparr>invoked = None, outcome = None\<rparr>
                | Some (Inl e) \<Rightarrow> failed e
                | Some (Inr ps') \<Rightarrow>
                    \<lparr>invoked = Some ps',
                     outcome = Some (case body m ps' of
                        Inl e \<Rightarrow> Inl e
                      | Inr res \<Rightarrow> Inr (if res = Undefined then Bool True else res))\<rparr>)))"
    unfolding cl_def using m u by (rule call_with_user)
  from L have l: "resolve_loop n c (user_id u) (hasPermission u ''admin'')
                    (es1 @ (key, e) # es2) ps [] = (err, ps', promises)"
    by (simp add: L_def adm_def)
  have rp: "resolveParams n c (Some u) m ps =
     (case err of
        Some e \<Rightarrow> Some (Inl e)
      | None \<Rightarrow>
          (case all_of promises of
             None \<Rightarrow> None
           | Some False \<Rightarrow> Some (Inl Unauthorized)
           | Some True \<Rightarrow> Some (Inr ps')))"
    using r l by (rule resolveParams_with_user)
  have mem: "chk \<in> set promises" if "\<not> adm"
  proof -
    from that l1 have "resolve_loop n c (user_id u) False es1 ps [] = (None, ps1, promises1)"
      by (simp add: adm_def)
    moreover from that l
    have "resolve_loop n c (user_id u) False (es1 @ (key, e) # es2) ps [] = (err, ps', promises)"
      by (simp add: adm_def)
    ultimately show ?thesis
      unfolding chk_def using v g visited_check_in_promises by blast
  qed
  have A: "cl = failed (case checkPermission (Some u) m of
                        Some x \<Rightarrow> x
                      | None \<Rightarrow>
                          (case checkParams m ps of
                             Some x \<Rightarrow> x
                           | None \<Rightarrow> (case fst L of Some x \<Rightarrow> x | None \<Rightarrow> Unauthorized)))"
    if "\<not> adm \<and> chk = Some False"
  proof -
    from that mem have "Some False \<in> set promises" by auto
    then have "all_of promises = Some False" by (simp add: all_of_False_iff)
    with rp have "resolveParams n c (Some u) m ps
        = Some (Inl (case err of Some x \<Rightarrow> x | None \<Rightarrow> Unauthorized))"
      by (cases err) simp_all
    with c L show ?thesis
      by (simp split: option.splits)
  qed
  have B: "checkPermission (Some u) m = None \<and> checkParams m ps = None
            \<and> fst L = None \<and> list_all (\<lambda>p. p = Some True) (snd (snd L))
            \<and> (adm \<or> chk = Some True) \<and> invoked cl = Some (fst (snd L))"
    if i: "invoked cl \<noteq> None"
  proof -
    from i c have p1: "checkPermission (Some u) m = None"
      by (cases "checkPermission (Some u) m") (simp_all add: failed_def)
    from i c p1 have p2: "checkParams m ps = None"
      by (cases "checkParams m ps") (simp_all add: failed_def)
    from i c p1 p2 obtain ps'' where rs: "resolveParams n c (Some u) m ps = Some (Inr ps'')"
      and inv: "invoked cl = Some ps''"
      by (auto simp: failed_def split: option.splits sum.splits)
    from rs rp have e: "err = None"
      by (cases err) simp_all
    with rs rp have a: "all_of promises = Some True" and p: "ps'' = ps'"
      by (auto split: option.splits bool.splits)
    from a have all: "\<forall>p \<in> set promises. p = Some True"
      by (simp add: all_of_True_iff)
    then have la: "list_all (\<lambda>p. p = Some True) promises"
      by (simp add: list_all_iff)
    have "adm \<or> chk = Some True"
    proof (cases adm)
      case True
      then show ?thesis by simp
    next
      case False
      then have "chk \<in> set promises" by (rule mem)
      with all show ?thesis by blast
    qed
    with p1 p2 e la inv p L show ?thesis by simp
  qed
  have C: "snd (snd L) = []
            \<and> (checkPermission (Some u) m = None \<and> checkParams m ps = None \<and> fst L = None \<longrightarrow>
                 invoked cl = Some (fst (snd L)))"
    if "adm"
  proof -
    from that L have "resolve_loop n c (user_id u) True (es1 @ (key, e) # es2) ps []
        = (err, ps', promises)"
      by (simp add: L_def)
    then have n: "promises = []" by (rule resolve_loop_admin)
    then have "all_of promises = Some True" by (simp add: all_of_def)
    with rp have "err = None \<longrightarrow> resolveParams n c (Some u) m ps = Some (Inr ps')"
      by simp
    with c L n show ?thesis by auto
  qed
  from A B C show ?thesis
    unfolding cl_def L_def adm_def chk_def by blast
qed

theorem failed_check_stops_call_witness:
  "example_methods ''vm.move'' = Some two_entries
   \<and> resolve two_entries = Some [vm_entry, host_entry]
   \<and> context_user example_ctx (Some ''u2'') = Inr (Some \<lparr>user_id = ''u2'', user_permission = ''none''\<rparr>)
   \<and> resolve_loop 3 example_ctx ''u2'' False [vm_entry]
        [(''id'', Str ''vm1''), (''host_id'', Str ''host1'')] []
        = (None, [(''host_id'', Str ''host1''), (''vm'', Obj vm1)], [Some True])
   \<and> getObject example_ctx (Str ''host1'') (Some [''host'']) = Inr host1
   \<and> checkAuthorization 3 example_ctx ''u2'' host1 ''administrate'' = Some False
   \<and> call 3 example_methods example_ctx (Some ''u2'') ''vm.move''
        [(''id'', Str ''vm1''), (''host_id'', Str ''host1'')] = failed Unauthorized
   \<and> getObject example_ctx (Str ''vm1'') (Some [''VM'']) = Inr vm1
   \<and> checkAuthorization 3 example_ctx ''u2'' vm1 ''administrate'' = Some True
   \<and> invoked (call 3 example_methods example_ctx (Some ''u2'') ''vm.move'' [(''id'', Str ''vm1'')])
        = Some [(''vm'', Obj vm1)]
   \<and> context_user example_ctx (Some ''u0'') = Inr (Some \<lparr>user_id = ''u0'', user_permission = ''admin''\<rparr>)
   \<and> snd (snd (resolve_loop 0 example_ctx ''u0'' True [vm_entry, host_entry]
                  [(''id'', Str ''vm1'')] [])) = []
   \<and> invoked (call 0 example_methods example_ctx (Some ''u0'') ''vm.move'' [(''id'', Str ''vm1'')])
        = Some [(''vm'', Obj vm1)]"
proof -
  let ?u0 = "\<lparr>user_id = ''u0'', user_permission = ''admin''\<rparr>"
  let ?u2 = "\<lparr>user_id = ''u2'', user_permission = ''none''\<rparr>"
  let ?ps = "[(''id'', Str ''vm1'')]"
  let ?ps2 = "[(''id'', Str ''vm1''), (''host_id'', Str ''host1'')]"
  let ?ps1 = "[(''host_id'', Str ''host1''), (''vm'', Obj vm1)]"
  have m: "example_methods ''vm.move'' = Some two_entries" by (simp add: example_methods_def)
  have r: "resolve two_entries = Some [vm_entry, host_entry]" by (simp add: two_entries_def)
  have r1: "resolve two_entries = Some ([vm_entry] @ (fst host_entry, snd host_entry) # [])"
    by (simp add: two_entries_def)
  have r2: "resolve two_entries = Some ([] @ (fst vm_entry, snd vm_entry) # [host_entry])"
    by (simp add: two_entries_def)
  have u0: "context_user example_ctx (Some ''u0'') = Inr (Some ?u0)" by code_simp
  have u2: "context_user example_ctx (Some ''u2'') = Inr (Some ?u2)" by code_simp
  have a0: "user_id ?u0 = ''u0'' \<and> hasPermission ?u0 ''admin'' = True" by code_simp
  have a2: "user_id ?u2 = ''u2'' \<and> hasPermission ?u2 ''admin'' = False" by code_simp
  have e0: "resolve_loop n example_ctx (user_id u) (hasPermission u ''admin'') [] ps [] = (None, ps, [])"
    for n u ps by simp
  have l1: "resolve_loop 3 example_ctx (user_id ?u2) (hasPermission ?u2 ''admin'') [vm_entry] ?ps2 []
              = (None, ?ps1, [Some True])"
    by code_simp
  have v1: "pget ?ps1 (r_param (snd host_entry)) \<noteq> Undefined" by code_simp
  have g1: "getObject example_ctx (pget ?ps1 (r_param (snd host_entry))) (r_types (snd host_entry))
              = Inr host1" by code_simp
  have g1': "getObject example_ctx (Str ''host1'') (Some [''host'']) = Inr host1" by code_simp
  have c1: "checkAuthorization 3 example_ctx (user_id ?u2) host1 (entry_permission (snd host_entry))
              = Some False" by code_simp
  have c1': "checkAuthorization 3 example_ctx ''u2'' host1 ''administrate'' = Some False"
    by code_simp
  have p1: "checkPermission (Some ?u2) two_entries = None \<and> checkParams two_entries ?ps2 = None
      \<and> fst (resolve_loop 3 example_ctx (user_id ?u2) (hasPermission ?u2 ''admin'')
               [vm_entry, host_entry] ?ps2 []) = None"
    by code_simp
  have v2: "pget ?ps (r_param (snd vm_entry)) \<noteq> Undefined" by code_simp
  have g2: "getObject example_ctx (pget ?ps (r_param (snd vm_entry))) (r_types (snd vm_entry))
              = Inr vm1" by code_simp
  have g2': "getObject example_ctx (Str ''vm1'') (Some [''VM'']) = Inr vm1" by code_simp
  have c2': "checkAuthorization 3 example_ctx ''u2'' vm1 ''administrate'' = Some True"
    by code_simp
  have i2: "invoked (call 3 example_methods example_ctx (Some ''u2'') ''vm.move'' ?ps) \<noteq> None"
    by code_simp
  have f2: "fst (snd (resolve_loop 3 example_ctx (user_id ?u2) (hasPermission ?u2 ''admin'')
                        [vm_entry, host_entry] ?ps [])) = [(''vm'', Obj vm1)]"
    by code_simp
  have p3: "checkPermission (Some ?u0) two_entries = None \<and> checkParams two_entries ?ps = None
      \<and> fst (resolve_loop 0 example_ctx (user_id ?u0) (hasPermission ?u0 ''admin'')
               [vm_entry, host_entry] ?ps []) = None"
    by code_simp
  have f3: "fst (snd (resolve_loop 0 example_ctx (user_id ?u0) (hasPermission ?u0 ''admin'')
                        [vm_entry, host_entry] ?ps [])) = [(''vm'', Obj vm1)]"
    by code_simp
  from failed_check_stops_call [where methods = example_methods and name = "''vm.move''"
      and n = 3 and ps = ?ps2 and ?es1.0 = "[vm_entry]" and key = "fst host_entry"
      and e = "snd host_entry" and ?es2.0 = "[]", OF m u2 r1 l1 v1 g1] a2 c1 p1
  have 1: "call 3 example_methods example_ctx (Some ''u2'') ''vm.move'' ?ps2 = failed Unauthorized"
    by simp
  from failed_check_stops_call [where methods = example_methods and name = "''vm.move''"
      and n = 3 and ps = ?ps and ?es1.0 = "[]" and key = "fst vm_entry"
      and e = "snd vm_entry" and ?es2.0 = "[host_entry]", OF m u2 r2 e0 v2 g2] i2 f2
  have 2: "invoked (call 3 example_methods example_ctx (Some ''u2'') ''vm.move'' ?ps)
             = Some [(''vm'', Obj vm1)]"
    by simp
  note admin_case = failed_check_stops_call [where methods = example_methods
      and name = "''vm.move''" and n = 0 and ps = ?ps and ?es1.0 = "[]" and key = "fst vm_entry"
      and e = "snd vm_entry" and ?es2.0 = "[host_entry]", OF m u0 r2 e0 v2 g2,
      THEN conjunct2, THEN conjunct2, THEN mp]
  have adm: "hasPermission ?u0 ''admin''" by code_simp
  note none_made = admin_case [OF adm, THEN conjunct1]
  note reached = admin_case [OF adm, THEN conjunct2]
  from none_made a0
  have 3: "snd (snd (resolve_loop 0 example_ctx ''u0'' True [vm_entry, host_entry] ?ps [])) = []"
    by simp
  from reached p3 f3
  have 4: "invoked (call 0 example_methods example_ctx (Some ''u0'') ''vm.move'' ?ps)
             = Some [(''vm'', Obj vm1)]"
    by simp
  from l1 a2 have l1': "resolve_loop 3 example_ctx ''u2'' False [vm_entry] ?ps2 []
              = (None, ?ps1, [Some True])" by simp
  from m r u0 u2 l1' g1' c1' g2' c2' 1 2 3 4 show ?thesis by simp
qed

text \<open>
  A lookup that throws after a check has failed ends the call with the error of the
  lookup: the first entry's check fails for \<open>u1\<close>, the second entry's id does not
  resolve, and the call fails with \<open>NoSuchObject\<close>, not with \<open>Unauthorized\<close>. And no
  check is made for an administrator: the call of \<open>u0\<close> reaches the method body although
  the check of its entry, had it been made, would have failed.
\<close>

theorem lookup_error_overrides_failed_check:
  "resolve_loop 3 example_ctx ''u1'' False [vm_entry, host_entry]
       [(''id'', Str ''vm1''), (''host_id'', Str ''h9'')] []
     = (Some NoSuchObject, [(''host_id'', Str ''h9''), (''vm'', Obj vm1)], [Some False])
   \<and> call 3 example_methods example_ctx (Some ''u1'') ''vm.move''
       [(''id'', Str ''vm1''), (''host_id'', Str ''h9'')] = failed NoSuchObject
   \<and> failed NoSuchObject \<noteq> failed Unauthorized
   \<and> checkAuthorization 3 example_ctx ''u0'' vm1 ''administrate'' = Some False
   \<and> invoked (call 3 example_methods example_ctx (Some ''u0'') ''vm.move'' [(''id'', Str ''vm1'')])
       = Some [(''vm'', Obj vm1)]"
  by code_simp

lemma checkAuthorization_VIF:
  assumes "otype vif = ''VIF''"
    and "getObject c (property vif ''$network'') None = Inr network"
    and "getObject c (property vif ''$VM'') None = Inr vm"
  shows "checkAuthorization (Suc k) c userId vif perm =
           any_of [checkAuthorization k c userId network perm,
                   checkAuthorization k c userId vm perm]"
  using assms by (simp add: checkAuthorization.simps(2) checkAuthorizationByTypes_def check_VIF_def)

lemma checkAuthorization_VIF_dangling:
  assumes "otype vif = ''VIF''"
    and "isl (getObject c (property vif ''$network'') None)
         \<or> isl (getObject c (property vif ''$VM'') None)"
  shows "checkAuthorization (Suc k) c userId vif perm = Some False"
proof -
  from assms(1) have "checkAuthorization (Suc k) c userId vif perm
      = check_VIF (\<lambda>obj. checkAuthorization k c userId obj perm) c vif"
    by (simp add: checkAuthorization.simps(2) checkAuthorizationByTypes_def)
  moreover from assms(2)
  have "check_VIF (\<lambda>obj. checkAuthorization k c userId obj perm) c vif = Some False"
    by (auto simp: check_VIF_def isl_def split: sum.splits)
  ultimately show ?thesis by simp
qed

text \<open>
  C5 fails for a VIF one of whose containers does not resolve: the network of \<open>vif2\<close>
  is not in the store, the accessor throws inside the VIF function before
  \<open>Bluebird.any\<close> is reached, and the check of the VIF is rejected although the check
  of its VM succeeds for \<open>u2\<close>.
\<close>

theorem VIF_with_dangling_network_denied:
  "otype vif2 = ''VIF''
   \<and> getObject example_ctx (property vif2 ''$VM'') None = Inr vm1
   \<and> checkAuthorization 1 example_ctx ''u2'' vm1 ''administrate'' = Some True
   \<and> getObject example_ctx (property vif2 ''$network'') None = Inl NoSuchObject
   \<and> checkAuthorization 1 example_ctx ''u2'' vif2 ''administrate'' = Some False
   \<and> checkAuthorization 2 example_ctx ''u2'' vif2 ''administrate'' = Some False
   \<and> checkAuthorization 7 example_ctx ''u2'' vif2 ''administrate'' = Some False"
  by code_simp

text \<open>
  C5. For a VIF whose network and VM both resolve, the authorization check is the
  \<open>Bluebird.any\<close> of the checks of the two containers: it is granted if and only if the
  check of the network or the check of the VM is granted, and denied if and only if both
  are denied. For a VIF whose network or VM does not resolve, the check is denied and
  not granted, whatever the check of the other container gives.
\<close>

theorem VIF_authorized_through_either_container:
  assumes t: "otype vif = ''VIF''"
  shows "(getObject c (property vif ''$network'') None = Inr network
            \<and> getObject c (property vif ''$VM'') None = Inr vm \<longrightarrow>
            checkAuthorization (Suc n) c userId vif perm =
              any_of [checkAuthorization n c userId network perm,
                      checkAuthorization n c userId vm perm]
            \<and> (granted c userId vif perm \<longleftrightarrow>
                 granted c userId network perm \<or> granted c userId vm perm)
            \<and> (denied c userId vif perm \<longleftrightarrow>
                 denied c userId network perm \<and> denied c userId vm perm))
       \<and> (isl (getObject c (property vif ''$network'') None)
            \<or> isl (getObject c (property vif ''$VM'') None) \<longrightarrow>
            checkAuthorization (Suc n) c userId vif perm = Some False
            \<and> denied c userId vif perm \<and> \<not> granted c userId vif perm)"
proof (intro conjI impI)
  assume both: "getObject c (property vif ''$network'') None = Inr network
            \<and> getObject c (property vif ''$VM'') None = Inr vm"
  then have nw: "getObject c (property vif ''$network'') None = Inr network"
    and vm: "getObject c (property vif ''$VM'') None = Inr vm" by simp_all
  note step = checkAuthorization_VIF [OF t nw vm]
  show "checkAuthorization (Suc n) c userId vif perm =
              any_of [checkAuthorization n c userId network perm,
                      checkAuthorization n c userId vm perm]"
    by (rule step)
  show "granted c userId vif perm \<longleftrightarrow>
            granted c userId network perm \<or> granted c userId vm perm"
  proof
    assume "granted c userId vif perm"
    then obtain k where k: "checkAuthorization k c userId vif perm = Some True"
      by (auto simp: granted_def)
    then obtain j where "k = Suc j" by (cases k) simp_all
    with k step [of j userId perm]
    have "any_of [checkAuthorization j c userId network perm,
                  checkAuthorization j c userId vm perm] = Some True"
      by simp
    then have "checkAuthorization j c userId network perm = Some True
          \<or> checkAuthorization j c userId vm perm = Some True"
      by (auto simp: any_of_True_iff)
    then show "granted c userId network perm \<or> granted c userId vm perm"
      unfolding granted_def by blast
  next
    assume "granted c userId network perm \<or> granted c userId vm perm"
    then obtain j where "checkAuthorization j c userId network perm = Some True
          \<or> checkAuthorization j c userId vm perm = Some True"
      unfolding granted_def by blast
    then have "checkAuthorization (Suc j) c userId vif perm = Some True"
      unfolding step by (auto simp: any_of_True_iff)
    then show "granted c userId vif perm"
      unfolding granted_def by blast
  qed
  show "denied c userId vif perm \<longleftrightarrow>
            denied c userId network perm \<and> denied c userId vm perm"
  proof
    assume "denied c userId vif perm"
    then obtain k where k: "checkAuthorization k c userId vif perm = Some False"
      by (auto simp: denied_def)
    then obtain j where "k = Suc j" by (cases k) simp_all
    with k step [of j userId perm]
    have "any_of [checkAuthorization j c userId network perm,
                  checkAuthorization j c userId vm perm] = Some False"
      by simp
    then have "checkAuthorization j c userId network perm = Some False
          \<and> checkAuthorization j c userId vm perm = Some False"
      by (simp add: any_of_False_iff)
    then show "denied c userId network perm \<and> denied c userId vm perm"
      unfolding denied_def by blast
  next
    assume "denied c userId network perm \<and> denied c userId vm perm"
    then obtain j1 j2 where j1: "checkAuthorization j1 c userId network perm = Some False"
      and j2: "checkAuthorization j2 c userId vm perm = Some False"
      unfolding denied_def by blast
    from j1 have "checkAuthorization (max j1 j2) c userId network perm = Some False"
      by (rule checkAuthorization_mono) simp
    moreover from j2 have "checkAuthorization (max j1 j2) c userId vm perm = Some False"
      by (rule checkAuthorization_mono) simp
    ultimately have "checkAuthorization (Suc (max j1 j2)) c userId vif perm = Some False"
      unfolding step by (simp add: any_of_False_iff)
    then show "denied c userId vif perm"
      unfolding denied_def by blast
  qed
next
  assume d: "isl (getObject c (property vif ''$network'') None)
            \<or> isl (getObject c (property vif ''$VM'') None)"
  note step = checkAuthorization_VIF_dangling [OF t d]
  show "checkAuthorization (Suc n) c userId vif perm = Some False" by (rule step)
  then show "denied c userId vif perm" unfolding denied_def by blast
  show "\<not> granted c userId vif perm"
  proof
    assume "granted c userId vif perm"
    then obtain k where k: "checkAuthorization k c userId vif perm = Some True"
      by (auto simp: granted_def)
    then obtain j where "k = Suc j" by (cases k) simp_all
    with k step [of j userId perm] show False by simp
  qed
qed

theorem VIF_authorized_through_either_container_witness:
  "otype vif1 = ''VIF''
   \<and> getObject example_ctx (property vif1 ''$network'') None = Inr net1
   \<and> getObject example_ctx (property vif1 ''$VM'') None = Inr vm1
   \<and> checkAuthorization 1 example_ctx ''u1'' net1 ''administrate'' = Some True
   \<and> checkAuthorization 1 example_ctx ''u1'' vm1 ''administrate'' = Some False
   \<and> checkAuthorization 2 example_ctx ''u1'' vif1 ''administrate'' = Some True
   \<and> granted example_ctx ''u1'' vif1 ''administrate''
   \<and> \<not> denied example_ctx ''u1'' vif1 ''administrate''
   \<and> otype vif2 = ''VIF''
   \<and> isl (getObject example_ctx (property vif2 ''$network'') None)
   \<and> checkAuthorization 1 example_ctx ''u2'' vm1 ''administrate'' = Some True
   \<and> checkAuthorization 2 example_ctx ''u2'' vif2 ''administrate'' = Some False
   \<and> denied example_ctx ''u2'' vif2 ''administrate''
   \<and> \<not> granted example_ctx ''u2'' vif2 ''administrate''"
proof -
  have t: "otype vif1 = ''VIF''" by code_simp
  have t2: "otype vif2 = ''VIF''" by code_simp
  have nw: "getObject example_ctx (property vif1 ''$network'') None = Inr net1" by code_simp
  have vm: "getObject example_ctx (property vif1 ''$VM'') None = Inr vm1" by code_simp
  have dn: "isl (getObject example_ctx (property vif2 ''$network'') None)" by code_simp
  have a: "checkAuthorization 1 example_ctx ''u1'' net1 ''administrate'' = Some True" by code_simp
  have b: "checkAuthorization 1 example_ctx ''u1'' vm1 ''administrate'' = Some False" by code_simp
  have b2: "checkAuthorization 1 example_ctx ''u2'' vm1 ''administrate'' = Some True" by code_simp
  note inst = VIF_authorized_through_either_container
    [OF t, where c = example_ctx and network = net1 and vm = vm1 and userId = "''u1''"
       and perm = "''administrate''"]
  note inst2 = VIF_authorized_through_either_container
    [OF t2, where c = example_ctx and userId = "''u2''" and perm = "''administrate''" and n = 1]
  from a have gn: "granted example_ctx ''u1'' net1 ''administrate''"
    unfolding granted_def by blast
  have nd: "\<not> denied example_ctx ''u1'' net1 ''administrate''"
  proof
    assume "denied example_ctx ''u1'' net1 ''administrate''"
    then obtain k where k: "checkAuthorization k example_ctx ''u1'' net1 ''administrate'' = Some False"
      unfolding denied_def by blast
    then have "checkAuthorization (max k 1) example_ctx ''u1'' net1 ''administrate'' = Some False"
      by (rule checkAuthorization_mono) simp
    moreover from a have "checkAuthorization (max k 1) example_ctx ''u1'' net1 ''administrate'' = Some True"
      by (rule checkAuthorization_mono) simp
    ultimately show False by simp
  qed
  from inst [of 1] nw vm a b
  have c: "checkAuthorization (Suc 1) example_ctx ''u1'' vif1 ''administrate'' = Some True"
    by (simp add: any_of_def)
  from c have c': "checkAuthorization 2 example_ctx ''u1'' vif1 ''administrate'' = Some True"
    by (simp add: numeral_2_eq_2)
  from inst [of 1] nw vm gn nd have g: "granted example_ctx ''u1'' vif1 ''administrate''
      \<and> \<not> denied example_ctx ''u1'' vif1 ''administrate''" by blast
  from inst2 dn have d: "checkAuthorization (Suc 1) example_ctx ''u2'' vif2 ''administrate'' = Some False
      \<and> denied example_ctx ''u2'' vif2 ''administrate''
      \<and> \<not> granted example_ctx ''u2'' vif2 ''administrate''" by blast
  then have d': "checkAuthorization 2 example_ctx ''u2'' vif2 ''administrate'' = Some False"
    by (simp add: numeral_2_eq_2)
  from t nw vm a b c' g t2 dn b2 d d' show ?thesis by simp
qed

end
